theory Spec2Isabelle
  imports Complex_Main "HOL-Library.Multiset" "HOL-Library.Word"
begin

section \<open>Numbers, errors and arrays\<close>

text \<open>
  The numeric code of the repository runs on numpy and torch floating-point arrays.
  The development models every finite float as a \<^typ>\<open>real\<close>: rounding, overflow and
  signed zeros are not modelled, so every theorem below speaks about exact arithmetic on
  finite inputs. What is modelled of IEEE arithmetic is the one place where the source
  can leave the finite numbers: the division inside \<open>nms\<close>. numpy does not
  raise on a zero divisor; it yields \<open>nan\<close> for \<open>0/0\<close> and an infinity for
  \<open>x/0\<close> with \<open>x \<noteq> 0\<close> (and prints a RuntimeWarning). The result of a division
  is therefore a value of \<open>fp\<close>.
\<close>

datatype fp = Fin real | PInf | NInf | NaN

definition fdiv :: "real \<Rightarrow> real \<Rightarrow> fp" where
  "fdiv a b =
     (if b \<noteq> 0 then Fin (a / b)
      else if a = 0 then NaN
      else if 0 < a then PInf else NInf)"

text \<open>
  The comparisons of a float with a finite number: every comparison with \<open>nan\<close> is
  false, as in IEEE 754, Python and numpy.
\<close>

fun fp_le :: "fp \<Rightarrow> real \<Rightarrow> bool" where
  "fp_le (Fin x) t = (x \<le> t)"
| "fp_le PInf t = False"
| "fp_le NInf t = True"
| "fp_le NaN t = False"

fun fp_gt :: "fp \<Rightarrow> real \<Rightarrow> bool" where
  "fp_gt (Fin x) t = (t < x)"
| "fp_gt PInf t = True"
| "fp_gt NInf t = False"
| "fp_gt NaN t = False"

text \<open>Python's \<open>==\<close> on two floats: \<open>nan\<close> is equal to nothing, itself included.\<close>

fun fp_eq :: "fp \<Rightarrow> fp \<Rightarrow> bool" where
  "fp_eq NaN b = False"
| "fp_eq a NaN = False"
| "fp_eq a b = (a = b)"

text \<open>
  The exceptions the modelled code can raise: Python's IndexError and ValueError, and
  \<open>cv2.error\<close>. A function that may raise returns a value of \<open>error + 'a\<close>.
\<close>

datatype error = IndexError | ValueError | CvError

section \<open>Non-maximum suppression (\<open>celldetection/detect.py\<close>, \<open>nms\<close>)\<close>

text \<open>A row \<open>[x1, y1, x2, y2]\<close> of the \<open>boxes\<close> array.\<close>

record box =
  x1 :: real
  y1 :: real
  x2 :: real
  y2 :: real

text \<open>\<open>areas = (x2 - x1) * (y2 - y1)\<close>, one entry per box.\<close>

definition area :: "box \<Rightarrow> real" where
  "area b = (x2 b - x1 b) * (y2 b - y1 b)"

text \<open>
  The overlap of box \<open>a\<close> (the current box \<open>i\<close>) with box \<open>b\<close> (one of
  \<open>order[1:]\<close>), as the loop body computes it entry by entry: \<open>xx1, yy1, xx2, yy2\<close>,
  then \<open>w\<close> and \<open>h\<close> clamped at \<open>0.0\<close>, then \<open>inter = w * h\<close>.
\<close>

definition inter :: "box \<Rightarrow> box \<Rightarrow> real" where
  "inter a b =
     (let xx1 = max (x1 a) (x1 b);
          yy1 = max (y1 a) (y1 b);
          xx2 = min (x2 a) (x2 b);
          yy2 = min (y2 a) (y2 b);
          w = max 0 (xx2 - xx1);
          h = max 0 (yy2 - yy1)
      in w * h)"

text \<open>\<open>iou = inter / (areas[i] + areas[order[1:]] - inter)\<close>, for one entry.\<close>

definition iou :: "box \<Rightarrow> box \<Rightarrow> fp" where
  "iou a b = fdiv (inter a b) (area a + area b - inter a b)"

text \<open>
  \<open>scores.argsort()\<close>: the indices that sort the scores in ascending order. numpy's
  default sort does not promise an order among equal scores; the model breaks ties by
  the original index (a stable sort), which is what numpy's insertion sort does on the
  short arrays the detector produces. \<open>order = scores.argsort()[::-1]\<close> is the
  reverse of that list.
\<close>

definition argsort :: "real list \<Rightarrow> nat list" where
  "argsort scores = map snd (sort_key fst (zip scores [0..<length scores]))"

text \<open>
  One pass of the body of \<open>while order.size > 0\<close> on \<open>order = i # rest\<close>: the IoU of
  box \<open>i\<close> with every box of \<open>order[1:]\<close>, \<open>inds = np.where(iou <= iou_threshold)[0]\<close>
  and the new \<open>order[inds + 1]\<close>.
\<close>

definition next_order :: "box list \<Rightarrow> real \<Rightarrow> nat \<Rightarrow> nat list \<Rightarrow> nat list" where
  "next_order boxes iou_threshold i rest =
     (let ious = map (\<lambda>j. iou (boxes ! i) (boxes ! j)) rest;
          inds = filter (\<lambda>k. fp_le (ious ! k) iou_threshold) [0..<length ious]
      in map (\<lambda>k. (i # rest) ! (k + 1)) inds)"

text \<open>
  The loop \<open>while order.size > 0\<close> with its two variables, the list \<open>keep\<close> and the
  array \<open>order\<close>. Every pass removes at least \<open>order[0]\<close>, so the loop ends.
\<close>

function nms_loop :: "box list \<Rightarrow> real \<Rightarrow> nat list \<Rightarrow> nat list \<Rightarrow> nat list" where
  "nms_loop boxes iou_threshold keep [] = keep"
| "nms_loop boxes iou_threshold keep (i # rest) =
     nms_loop boxes iou_threshold (keep @ [i]) (next_order boxes iou_threshold i rest)"
  by pat_completeness auto
termination
  by (relation "measure (\<lambda>(boxes, thr, keep, order). length order)")
     (auto simp: next_order_def less_Suc_eq_le intro: order_trans [OF length_filter_le])

text \<open>
  \<open>nms\<close> itself. An empty \<open>boxes\<close> returns \<open>[]\<close> at once. Otherwise the first pass of
  the loop reads \<open>x1[i]\<close> and \<open>x1[order[1:]]\<close>, that is the boxes at every index of
  \<open>order\<close>: numpy raises IndexError there when \<open>scores\<close> is longer than \<open>boxes\<close>.
\<close>

definition nms :: "box list \<Rightarrow> real list \<Rightarrow> real \<Rightarrow> error + nat list" where
  "nms boxes scores iou_threshold =
     (if length boxes = 0 then Inr []
      else
        let order = rev (argsort scores)
        in if list_ex (\<lambda>i. length boxes \<le> i) order then Inl IndexError
           else Inr (nms_loop boxes iou_threshold [] order))"

text \<open>
  The greedy selection, as a function of the test that decides which of the remaining
  indices stay: keep the first index of the list, drop from the rest every index the
  test refuses, and go on with what is left.
\<close>

function greedy_select :: "(nat \<Rightarrow> nat \<Rightarrow> bool) \<Rightarrow> nat list \<Rightarrow> nat list" where
  "greedy_select keeps [] = []"
| "greedy_select keeps (i # rest) = i # greedy_select keeps (filter (keeps i) rest)"
  by pat_completeness auto
termination
  by (relation "measure (\<lambda>(keeps, order). length order)") (auto simp: less_Suc_eq_le)

text \<open>
  The algorithm in the words of the specification, for comparison with \<open>nms\<close>: the
  indices sorted by descending score, and the greedy selection that discards a remaining
  box exactly when its IoU with the kept box is strictly greater than the threshold.
\<close>

definition nms_spec :: "box list \<Rightarrow> real list \<Rightarrow> real \<Rightarrow> nat list" where
  "nms_spec boxes scores iou_threshold =
     greedy_select (\<lambda>i j. \<not> fp_gt (iou (boxes ! i) (boxes ! j)) iou_threshold)
       (rev (argsort scores))"

text \<open>A box of positive width and height.\<close>

definition proper :: "box \<Rightarrow> bool" where
  "proper b \<longleftrightarrow> x1 b < x2 b \<and> y1 b < y2 b"

text \<open>
  Example boxes: the three boxes of the specification's example, two point boxes, two
  boxes of area \<open>0\<close> that lie apart, and one box of width \<open>0\<close>.
\<close>

definition spec_boxes :: "box list" where
  "spec_boxes = [\<lparr>x1 = 0, y1 = 0, x2 = 10, y2 = 10\<rparr>,
                 \<lparr>x1 = 1, y1 = 1, x2 = 11, y2 = 11\<rparr>,
                 \<lparr>x1 = 50, y1 = 50, x2 = 60, y2 = 60\<rparr>]"

definition point_boxes :: "box list" where
  "point_boxes = [\<lparr>x1 = 1, y1 = 1, x2 = 1, y2 = 1\<rparr>, \<lparr>x1 = 7, y1 = 7, x2 = 7, y2 = 7\<rparr>]"

definition flat_boxes :: "box list" where
  "flat_boxes = [\<lparr>x1 = 0, y1 = 0, x2 = 4, y2 = 0\<rparr>, \<lparr>x1 = 20, y1 = 20, x2 = 20, y2 = 30\<rparr>]"

definition thin_box :: box where
  "thin_box = \<lparr>x1 = 3, y1 = 3, x2 = 3, y2 = 7\<rparr>"

section \<open>Post-processing (\<open>celldetection/detect.py\<close>, \<open>post_process\<close>)\<close>

text \<open>
  The prediction tensor of shape \<open>[M, shape1]\<close>: \<open>data\<close> holds its \<open>M\<close> rows, each
  of \<open>shape1\<close> entries (a tensor is rectangular; \<open>tensor_ok\<close> says so).
\<close>

record prediction =
  shape1 :: nat
  data :: "real list list"

definition tensor_ok :: "prediction \<Rightarrow> bool" where
  "tensor_ok p = list_all (\<lambda>r. length r = shape1 p) (data p)"

text \<open>\<open>torch.sigmoid\<close>, on exact reals.\<close>

definition sigmoid :: "real \<Rightarrow> real" where
  "sigmoid x = 1 / (1 + exp (- x))"

text \<open>A row of \<open>prediction[:, 0:4]\<close>, read by \<open>nms\<close> as \<open>[x1, y1, x2, y2]\<close>.\<close>

definition box_of_row :: "real list \<Rightarrow> box" where
  "box_of_row r = \<lparr>x1 = r ! 0, y1 = r ! 1, x2 = r ! 2, y2 = r ! 3\<rparr>"

text \<open>Indexing an array by a boolean mask of the same length, as in \<open>boxes[mask]\<close>.\<close>

definition mask_select :: "bool list \<Rightarrow> 'a list \<Rightarrow> 'a list" where
  "mask_select bmask xs = map snd (filter fst (zip bmask xs))"

text \<open>
  \<open>np.argmax\<close> of one row of class logits: the first index of the largest entry. The
  row is not empty where \<open>post_process\<close> calls it (\<open>shape1 > 5\<close>).
\<close>

fun argmax_from :: "real \<Rightarrow> nat \<Rightarrow> nat \<Rightarrow> real list \<Rightarrow> nat" where
  "argmax_from best idx k [] = idx"
| "argmax_from best idx k (x # xs) =
     (if best < x then argmax_from x k (Suc k) xs else argmax_from best idx (Suc k) xs)"

definition np_argmax :: "real list \<Rightarrow> nat" where
  "np_argmax xs = (case xs of [] \<Rightarrow> 0 | x # rest \<Rightarrow> argmax_from x 0 1 rest)"

text \<open>
  \<open>post_process\<close>. \<open>prediction[:, 4]\<close> raises IndexError when the tensor has fewer than
  five columns. The threshold mask is \<open>scores > threshold\<close>; the boxes and scores it
  selects go to \<open>nms\<close> with \<open>iou_threshold=0.5\<close>, and the function returns the rows
  \<open>nms\<close> keeps.
\<close>

definition post_process ::
  "prediction \<Rightarrow> real \<Rightarrow> error + (box list \<times> real list \<times> nat list)" where
  "post_process prediction threshold =
     (if shape1 prediction < 5 then Inl IndexError
      else
        let boxes = map box_of_row (data prediction);
            scores = map (\<lambda>r. sigmoid (r ! 4)) (data prediction);
            score_mask = map (\<lambda>s. threshold < s) scores;
            filtered_boxes = mask_select score_mask boxes;
            filtered_scores = mask_select score_mask scores;
            filtered_class_ids =
              (if 5 < shape1 prediction
               then map np_argmax (mask_select score_mask (map (drop 5) (data prediction)))
               else replicate (length filtered_boxes) 0)
        in case nms filtered_boxes filtered_scores 0.5 of
             Inl e \<Rightarrow> Inl e
           | Inr keep_indices \<Rightarrow>
               Inr (map ((!) filtered_boxes) keep_indices,
                    map ((!) filtered_scores) keep_indices,
                    map ((!) filtered_class_ids) keep_indices))"

text \<open>Example tensors.\<close>

definition boundary_prediction :: prediction where
  "boundary_prediction =
     \<lparr>shape1 = 5, data = [[0.1, 0.1, 0.4, 0.4, 0], [0.5, 0.5, 0.9, 0.9, 2]]\<rparr>"

definition twin_prediction :: prediction where
  "twin_prediction = \<lparr>shape1 = 5, data = [[0, 0, 1, 1, 2], [0, 0, 1, 1, 1]]\<rparr>"

text \<open>
  The confidence of a row, \<open>sigmoid(row[4])\<close>, and the rows of the tensor whose
  confidence is strictly greater than the threshold, in the tensor's order.
\<close>

definition confidence :: "real list \<Rightarrow> real" where
  "confidence r = sigmoid (r ! 4)"

definition above_threshold :: "prediction \<Rightarrow> real \<Rightarrow> real list list" where
  "above_threshold p threshold = filter (\<lambda>r. threshold < confidence r) (data p)"

unbundle bit_operations_syntax

section \<open>Images and the OpenCV primitives\<close>

text \<open>
  A numpy array of dtype \<open>uint8\<close> is a nested list of 8-bit words: an image of shape
  \<open>(h, w, c)\<close> is a list of \<open>h\<close> rows of \<open>w\<close> pixels of \<open>c\<close> channels, a single-channel
  array of shape \<open>(h, w)\<close> a list of \<open>h\<close> rows of \<open>w\<close> values. \<open>shape3\<close> and
  \<open>shape2\<close> give the full shape of such a list (the length of every row, and of every
  pixel), so that two arrays have the same numpy shape exactly when these agree.
\<close>

type_synonym pixel = "8 word list"
type_synonym image = "pixel list list"
type_synonym plane = "8 word list list"

definition shape3 :: "image \<Rightarrow> nat list list" where
  "shape3 img = map (map length) img"

definition shape2 :: "'a list list \<Rightarrow> nat list" where
  "shape2 a = map length a"

text \<open>\<open>h, w = image.shape[:2]\<close>.\<close>

definition img_height :: "image \<Rightarrow> nat" where
  "img_height img = length img"

definition img_width :: "image \<Rightarrow> nat" where
  "img_width img = (case img of [] \<Rightarrow> 0 | r # _ \<Rightarrow> length r)"

text \<open>
  One row of the \<open>stats\<close> array of \<open>cv2.connectedComponentsWithStats\<close> (columns
  \<open>CC_STAT_LEFT, CC_STAT_TOP, CC_STAT_WIDTH, CC_STAT_HEIGHT, CC_STAT_AREA\<close>, of dtype
  \<open>int32\<close>), and what the call returns: \<open>num_labels\<close>, \<open>labels\<close> and \<open>stats\<close>
  (\<open>centroids\<close> is never read).
\<close>

record cc_stat =
  stat_left :: int
  stat_top :: int
  stat_width :: int
  stat_height :: int
  stat_area :: int

record components =
  cc_num_labels :: nat
  cc_labels :: "int list list"
  cc_stats :: "cc_stat list"

text \<open>
  The OpenCV functions the enhancement code calls are not code of the repository. They
  are parameters of the model: a record \<open>cv2\<close> with one field per function, each
  returning its array or the error (\<open>cv2.error\<close>) it raises. The arguments the source
  passes as constants are kept where they vary between calls:
  \<^item> \<open>cv_cvtColor_RGB2GRAY\<close>, \<open>cv_cvtColor_RGB2LAB\<close>, \<open>cv_cvtColor_LAB2RGB\<close>,
    \<open>cv_cvtColor_BGR2RGB\<close>: \<open>cv2.cvtColor\<close> with that conversion code;
  \<^item> \<open>cv_adaptiveThreshold\<close>: \<open>cv2.adaptiveThreshold(gray, 255,
    ADAPTIVE_THRESH_GAUSSIAN_C, THRESH_BINARY_INV, 11, 2)\<close>;
  \<^item> \<open>cv_dilate a (r, c)\<close>: \<open>cv2.dilate\<close> of \<open>a\<close> by a kernel of ones of shape
    \<open>(r, c)\<close>, one iteration;
  \<^item> \<open>cv_Canny g lo hi\<close>, \<open>cv_GaussianBlur a (r, c)\<close> (sigma \<open>0\<close>);
  \<^item> \<open>cv_clahe_apply clip grid l\<close>: \<open>cv2.createCLAHE(clipLimit=clip,
    tileGridSize=grid).apply(l)\<close>;
  \<^item> \<open>cv_filter2D l kernel\<close>: \<open>cv2.filter2D(l, -1, kernel)\<close>;
  \<^item> \<open>cv_split\<close>, \<open>cv_merge\<close>, \<open>cv_connectedComponentsWithStats\<close>;
  \<^item> \<open>cv_imread\<close> (\<open>None\<close> for a file that cannot be read),
    \<open>cv_convertScaleAbs img alpha beta\<close> and \<open>cv_fastNlMeansDenoisingColored img h\<close>
    (\<open>h = hColor\<close>, windows \<open>7\<close> and \<open>21\<close>).
\<close>

record cv2 =
  cv_cvtColor_RGB2GRAY :: "image \<Rightarrow> error + plane"
  cv_cvtColor_RGB2LAB :: "image \<Rightarrow> error + image"
  cv_cvtColor_LAB2RGB :: "image \<Rightarrow> error + image"
  cv_cvtColor_BGR2RGB :: "image \<Rightarrow> error + image"
  cv_adaptiveThreshold :: "plane \<Rightarrow> error + plane"
  cv_connectedComponentsWithStats :: "plane \<Rightarrow> error + components"
  cv_dilate :: "plane \<Rightarrow> nat \<times> nat \<Rightarrow> error + plane"
  cv_Canny :: "plane \<Rightarrow> int \<Rightarrow> int \<Rightarrow> error + plane"
  cv_GaussianBlur :: "plane \<Rightarrow> nat \<times> nat \<Rightarrow> error + plane"
  cv_split :: "image \<Rightarrow> error + plane list"
  cv_merge :: "plane list \<Rightarrow> error + image"
  cv_clahe_apply :: "real \<Rightarrow> nat \<times> nat \<Rightarrow> plane \<Rightarrow> error + plane"
  cv_filter2D :: "plane \<Rightarrow> int list list \<Rightarrow> error + plane"
  cv_imread :: "string \<Rightarrow> image option"
  cv_convertScaleAbs :: "image \<Rightarrow> real \<Rightarrow> real \<Rightarrow> error + image"
  cv_fastNlMeansDenoisingColored :: "image \<Rightarrow> int \<Rightarrow> error + image"

text \<open>
  \<open>cv2.bitwise_or\<close> of two single-channel arrays: the bitwise or of the entries;
  OpenCV raises when the two shapes differ.
\<close>

definition bitwise_or :: "plane \<Rightarrow> plane \<Rightarrow> error + plane" where
  "bitwise_or a b =
     (if shape2 a = shape2 b then Inr (map2 (map2 (OR)) a b) else Inl CvError)"

text \<open>\<open>np.zeros_like\<close>.\<close>

definition zeros_like :: "plane \<Rightarrow> plane" where
  "zeros_like a = map (map (\<lambda>v. 0)) a"

text \<open>Python's \<open>int()\<close> of a float: truncation towards zero.\<close>

definition py_int :: "real \<Rightarrow> int" where
  "py_int r = (if 0 \<le> r then \<lfloor>r\<rfloor> else \<lceil>r\<rceil>)"

section \<open>Small-cell enhancement (\<open>celldetection/enhance/small_cell.py\<close>)\<close>

text \<open>
  The loop \<open>for i in range(1, num_labels)\<close> of \<open>enhance_small_cells\<close>, over the labels
  still to do, with the accumulator \<open>small_cells_mask\<close>. \<open>stats[i, ...]\<close> raises
  IndexError past the end of \<open>stats\<close>, and so does the boolean index
  \<open>component_mask[labels == i]\<close> when \<open>labels\<close> has not the shape of \<open>gray\<close>.
\<close>

fun small_cells_loop ::
  "cv2 \<Rightarrow> int \<Rightarrow> plane \<Rightarrow> int list list \<Rightarrow> cc_stat list \<Rightarrow> nat list \<Rightarrow> plane
     \<Rightarrow> error + plane" where
  "small_cells_loop cv cell_pixel_threshold gray labels stats [] small_cells_mask =
     Inr small_cells_mask"
| "small_cells_loop cv cell_pixel_threshold gray labels stats (i # todo) small_cells_mask =
     (if length stats \<le> i then Inl IndexError
      else
        let width = stat_width (stats ! i);
            height = stat_height (stats ! i)
        in if max width height < cell_pixel_threshold then
             (if shape2 labels \<noteq> shape2 gray then Inl IndexError
              else
                let component_mask = map (map (\<lambda>l. if l = int i then 255 else 0)) labels
                in case cv_dilate cv component_mask (3, 3) of
                     Inl e \<Rightarrow> Inl e
                   | Inr dilated_mask \<Rightarrow>
                       (case bitwise_or small_cells_mask dilated_mask of
                          Inl e \<Rightarrow> Inl e
                        | Inr small_cells_mask' \<Rightarrow>
                            small_cells_loop cv cell_pixel_threshold gray labels stats todo
                              small_cells_mask'))
           else small_cells_loop cv cell_pixel_threshold gray labels stats todo
                  small_cells_mask)"

text \<open>
  Lines 23 to 70 of \<open>enhance_small_cells\<close>: the pixel threshold, the grayscale image,
  the adaptive threshold, the connected components, the mask of the small components,
  the dilated edges, and the blurred union of the two, \<open>combined_mask\<close>.
\<close>

definition combined_mask_of :: "cv2 \<Rightarrow> image \<Rightarrow> real \<Rightarrow> error + plane" where
  "combined_mask_of cv img cell_size_threshold =
     (let h = img_height img;
          w = img_width img;
          min_dim = min h w;
          cell_pixel_threshold = py_int (real min_dim * cell_size_threshold)
      in case cv_cvtColor_RGB2GRAY cv img of
           Inl e \<Rightarrow> Inl e
         | Inr gray \<Rightarrow>
       case cv_adaptiveThreshold cv gray of
           Inl e \<Rightarrow> Inl e
         | Inr binary \<Rightarrow>
       case cv_connectedComponentsWithStats cv binary of
           Inl e \<Rightarrow> Inl e
         | Inr cc \<Rightarrow>
       case small_cells_loop cv cell_pixel_threshold gray (cc_labels cc) (cc_stats cc)
              [1..<cc_num_labels cc] (zeros_like gray) of
           Inl e \<Rightarrow> Inl e
         | Inr small_cells_mask \<Rightarrow>
       case cv_Canny cv gray 50 150 of
           Inl e \<Rightarrow> Inl e
         | Inr edges \<Rightarrow>
       case cv_dilate cv edges (2, 2) of
           Inl e \<Rightarrow> Inl e
         | Inr edges' \<Rightarrow>
       case bitwise_or small_cells_mask edges' of
           Inl e \<Rightarrow> Inl e
         | Inr combined_mask \<Rightarrow> cv_GaussianBlur cv combined_mask (3, 3))"

text \<open>
  \<open>np.where(combined_mask > 0)\<close>: the coordinates \<open>(y, x)\<close> of the entries greater than
  \<open>0\<close>, in row-major order; \<open>mask_regions[0]\<close> is the list of their \<open>y\<close>,
  \<open>mask_regions[1]\<close> the list of their \<open>x\<close>.
\<close>

definition np_where_positive :: "plane \<Rightarrow> (nat \<times> nat) list" where
  "np_where_positive m =
     concat (map (\<lambda>y. map (\<lambda>x. (y, x)) (filter (\<lambda>x. 0 < m ! y ! x) [0..<length (m ! y)]))
               [0..<length m])"

text \<open>
  Slices with non-negative bounds: \<open>xs[a:b]\<close>, \<open>img[r0:r1, c0:c1]\<close>, and the assignment
  \<open>img[r0:r1, c0:c1] = v\<close>, which numpy refuses with ValueError when \<open>v\<close> has not the
  shape of the slice (broadcasting of a smaller \<open>v\<close> is not modelled: the value
  assigned in \<open>enhance_small_cells\<close> comes from \<open>cv2.cvtColor\<close> of an array of the
  slice's shape).
\<close>

definition slice :: "nat \<Rightarrow> nat \<Rightarrow> 'a list \<Rightarrow> 'a list" where
  "slice a b xs = take (b - a) (drop a xs)"

definition get_roi :: "image \<Rightarrow> nat \<Rightarrow> nat \<Rightarrow> nat \<Rightarrow> nat \<Rightarrow> image" where
  "get_roi img r0 r1 c0 c1 = map (slice c0 c1) (slice r0 r1 img)"

definition set_roi :: "image \<Rightarrow> nat \<Rightarrow> nat \<Rightarrow> nat \<Rightarrow> nat \<Rightarrow> image \<Rightarrow> error + image" where
  "set_roi img r0 r1 c0 c1 v =
     (if shape3 v = shape3 (get_roi img r0 r1 c0 c1)
      then Inr (take r0 img
                @ map2 (\<lambda>row vrow. take c0 row @ vrow @ drop (max c0 c1) row)
                    (slice r0 r1 img) v
                @ drop (max r0 r1) img)
      else Inl ValueError)"

text \<open>
  Lines 87 to 100: the enhancement of the region of interest. \<open>l, a, b = cv2.split(...)\<close>
  raises ValueError unless there are three channels.
\<close>

definition sharpen_kernel :: "int list list" where
  "sharpen_kernel = [[-1, -1, -1], [-1, 9, -1], [-1, -1, -1]]"

definition enhance_region :: "cv2 \<Rightarrow> image \<Rightarrow> error + image" where
  "enhance_region cv roi =
     (case cv_cvtColor_RGB2LAB cv roi of
        Inl e \<Rightarrow> Inl e
      | Inr roi_lab \<Rightarrow>
     case cv_split cv roi_lab of
        Inl e \<Rightarrow> Inl e
      | Inr channels \<Rightarrow>
     case channels of
        [l, a, b] \<Rightarrow>
          (case cv_clahe_apply cv 3.0 (3, 3) l of
             Inl e \<Rightarrow> Inl e
           | Inr l_enhanced \<Rightarrow>
          case cv_filter2D cv l_enhanced sharpen_kernel of
             Inl e \<Rightarrow> Inl e
           | Inr l_enhanced' \<Rightarrow>
          case cv_merge cv [l_enhanced', a, b] of
             Inl e \<Rightarrow> Inl e
           | Inr roi_lab_enhanced \<Rightarrow> cv_cvtColor_LAB2RGB cv roi_lab_enhanced)
      | _ \<Rightarrow> Inl ValueError)"

text \<open>
  \<open>enhance_small_cells\<close>. After the mask, \<open>enhanced_img\<close> is a copy of the image; when
  the mask has an entry greater than \<open>0\<close>, \<open>min_y, max_y, min_x, max_x\<close> are the least
  and greatest coordinates of such entries (\<open>np.min\<close> and \<open>np.max\<close> of a list that is
  not empty), and when \<open>min_y < max_y and min_x < max_x\<close> the region between them is
  enhanced and written back.
\<close>

definition enhance_small_cells :: "cv2 \<Rightarrow> image \<Rightarrow> real \<Rightarrow> error + image" where
  "enhance_small_cells cv img cell_size_threshold =
     (case combined_mask_of cv img cell_size_threshold of
        Inl e \<Rightarrow> Inl e
      | Inr combined_mask \<Rightarrow>
          let enhanced_img = img;
              mask_regions = np_where_positive combined_mask
          in case mask_regions of
               [] \<Rightarrow> Inr enhanced_img
             | c # cs \<Rightarrow>
                 let min_y = fold min (map fst cs) (fst c);
                     max_y = fold max (map fst cs) (fst c);
                     min_x = fold min (map snd cs) (snd c);
                     max_x = fold max (map snd cs) (snd c)
                 in if min_y < max_y \<and> min_x < max_x then
                      (let roi = get_roi enhanced_img min_y (max_y + 1) min_x (max_x + 1)
                       in case enhance_region cv roi of
                            Inl e \<Rightarrow> Inl e
                          | Inr roi_enhanced \<Rightarrow>
                              set_roi enhanced_img min_y (max_y + 1) min_x (max_x + 1)
                                roi_enhanced)
                    else Inr enhanced_img)"

text \<open>
  The tight bounding rectangle of the non-zero entries of a mask: \<open>(y, x)\<close> is in it
  when \<open>y\<close> lies between the rows of two such entries and \<open>x\<close> between the columns of
  two such entries.
\<close>

definition in_bounding_rect :: "plane \<Rightarrow> nat \<Rightarrow> nat \<Rightarrow> bool" where
  "in_bounding_rect m y x =
     (let cs = np_where_positive m
      in list_ex (\<lambda>c. fst c \<le> y) cs \<and> list_ex (\<lambda>c. y \<le> fst c) cs
         \<and> list_ex (\<lambda>c. snd c \<le> x) cs \<and> list_ex (\<lambda>c. x \<le> snd c) cs)"

text \<open>
  A small stand-in for OpenCV, to run the model on concrete images: the grayscale image
  is the first channel, the adaptive threshold finds nothing, there is one component (the
  background), the edge detector marks the entries of at least \<open>200\<close>, dilation and blur
  change nothing, the colour conversions, the scaling and the denoising are the identity,
  the histogram equalisation inverts the lightness plane, and \<open>split\<close> and \<open>merge\<close>
  take an array apart into its channels and put it together again.
\<close>

definition demo_cv :: cv2 where
  "demo_cv = \<lparr>
     cv_cvtColor_RGB2GRAY = (\<lambda>img. Inr (map (map (\<lambda>p. case p of [] \<Rightarrow> 0 | v # _ \<Rightarrow> v)) img)),
     cv_cvtColor_RGB2LAB = Inr,
     cv_cvtColor_LAB2RGB = Inr,
     cv_cvtColor_BGR2RGB = Inr,
     cv_adaptiveThreshold = (\<lambda>g. Inr (zeros_like g)),
     cv_connectedComponentsWithStats = (\<lambda>b. Inr \<lparr>cc_num_labels = 1,
        cc_labels = map (map (\<lambda>v. 0)) b,
        cc_stats = [\<lparr>stat_left = 0, stat_top = 0, stat_width = 0, stat_height = 0,
                     stat_area = 0\<rparr>]\<rparr>),
     cv_dilate = (\<lambda>a k. Inr a),
     cv_Canny = (\<lambda>g lo hi. Inr (map (map (\<lambda>v. if 200 \<le> v then 255 else 0)) g)),
     cv_GaussianBlur = (\<lambda>a k. Inr a),
     cv_split = (\<lambda>img.
        let n = (case concat img of [] \<Rightarrow> 0 | p # _ \<Rightarrow> length p)
        in if list_all (list_all (\<lambda>p. length p = n)) img
           then Inr (map (\<lambda>i. map (map (\<lambda>p. p ! i)) img) [0..<n])
           else Inl CvError),
     cv_merge = (\<lambda>chs. case chs of
                   [] \<Rightarrow> Inl CvError
                 | c0 # cs \<Rightarrow>
                     if list_all (\<lambda>c. shape2 c = shape2 c0) cs
                     then Inr (map (\<lambda>y. map (\<lambda>x. map (\<lambda>c. c ! y ! x) chs)
                                          [0..<length (c0 ! y)])
                                 [0..<length c0])
                     else Inl CvError),
     cv_clahe_apply = (\<lambda>clip grid l. Inr (map (map (\<lambda>v. 255 - v)) l)),
     cv_filter2D = (\<lambda>l k. Inr l),
     cv_imread = (\<lambda>path. None),
     cv_convertScaleAbs = (\<lambda>img alpha beta. Inr img),
     cv_fastNlMeansDenoisingColored = (\<lambda>img h. Inr img)\<rparr>"

text \<open>Example images: a pixel with three equal channels, and three small images.\<close>

definition gray_px :: "8 word \<Rightarrow> pixel" where
  "gray_px v = [v, v, v]"

definition diagonal_img :: image where
  "diagonal_img = [[gray_px 250, gray_px 10, gray_px 10],
                   [gray_px 10, gray_px 250, gray_px 10],
                   [gray_px 10, gray_px 10, gray_px 10]]"

definition flat_img :: image where
  "flat_img = [[gray_px 10, gray_px 10], [gray_px 10, gray_px 10]]"

definition row_img :: image where
  "row_img = [[gray_px 250, gray_px 10, gray_px 250],
              [gray_px 10, gray_px 10, gray_px 10]]"

text \<open>Example component statistics and labels over a \<open>3 \<times> 3\<close> image.\<close>

definition demo_stats :: "cc_stat list" where
  "demo_stats =
     [\<lparr>stat_left = 0, stat_top = 0, stat_width = 3, stat_height = 3, stat_area = 6\<rparr>,
      \<lparr>stat_left = 0, stat_top = 0, stat_width = 2, stat_height = 1, stat_area = 2\<rparr>,
      \<lparr>stat_left = 2, stat_top = 2, stat_width = 1, stat_height = 1, stat_area = 1\<rparr>]"

definition demo_labels :: "int list list" where
  "demo_labels = [[1, 1, 0], [0, 0, 0], [0, 0, 2]]"

definition demo_gray :: plane where
  "demo_gray = [[250, 10, 10], [10, 250, 10], [10, 10, 10]]"

section \<open>CLAHE (\<open>celldetection/enhance/clahe.py\<close>)\<close>

text \<open>\<open>apply_clahe\<close>: equalise the lightness channel in LAB space.\<close>

definition apply_clahe :: "cv2 \<Rightarrow> image \<Rightarrow> real \<Rightarrow> nat \<times> nat \<Rightarrow> error + image" where
  "apply_clahe cv img clip_limit tile_grid_size =
     (case cv_cvtColor_RGB2LAB cv img of
        Inl e \<Rightarrow> Inl e
      | Inr lab \<Rightarrow>
     case cv_split cv lab of
        Inl e \<Rightarrow> Inl e
      | Inr channels \<Rightarrow>
     case channels of
        [l, a, b] \<Rightarrow>
          (case cv_clahe_apply cv clip_limit tile_grid_size l of
             Inl e \<Rightarrow> Inl e
           | Inr l' \<Rightarrow>
          case cv_merge cv [l', a, b] of
             Inl e \<Rightarrow> Inl e
           | Inr lab' \<Rightarrow> cv_cvtColor_LAB2RGB cv lab')
      | _ \<Rightarrow> Inl ValueError)"

text \<open>
  \<open>np.std\<close> of a single-channel array: the population standard deviation of its
  entries, \<open>nan\<close> (here \<open>None\<close>) for an array without entries.
\<close>

definition np_std :: "plane \<Rightarrow> real option" where
  "np_std g =
     (let xs = map (\<lambda>v. real (unat v)) (concat g);
          n = real (length xs)
      in if xs = [] then None
         else let mu = sum_list xs / n
              in Some (sqrt (sum_list (map (\<lambda>x. (x - mu)\<^sup>2) xs) / n)))"

text \<open>
  \<open>adaptive_clahe\<close>, for an image of three dimensions (the type \<open>image\<close>; a
  two-dimensional input would be used as \<open>gray\<close> itself and then be refused by
  \<open>cv2.cvtColor\<close> in \<open>apply_clahe\<close>). With \<open>std\<close> a \<open>nan\<close>, Python's
  \<open>min(max_clip_limit, nan)\<close> is \<open>max_clip_limit\<close> and \<open>nan < threshold\<close> is false.
\<close>

definition adaptive_clahe :: "cv2 \<Rightarrow> image \<Rightarrow> real \<Rightarrow> real \<Rightarrow> real \<Rightarrow> error + image" where
  "adaptive_clahe cv img low_contrast_threshold min_clip_limit max_clip_limit =
     (case cv_cvtColor_RGB2GRAY cv img of
        Inl e \<Rightarrow> Inl e
      | Inr gray \<Rightarrow>
          let std = np_std gray;
              clip_limit =
                (case std of
                   None \<Rightarrow> max min_clip_limit max_clip_limit
                 | Some s \<Rightarrow> max min_clip_limit (min max_clip_limit (5.0 - s / 50)));
              grid_size =
                (case std of
                   None \<Rightarrow> (8, 8)
                 | Some s \<Rightarrow> if s < low_contrast_threshold then (4, 4) else (8, 8))
          in apply_clahe cv img clip_limit grid_size)"

section \<open>The enhancement interface (\<open>celldetection/enhance/enhance.py\<close>)\<close>

text \<open>
  The argument \<open>image\<close> of \<open>enhance_image\<close> is an array or a path; \<open>params\<close> is a
  dictionary, read only through \<open>params.get(key, default)\<close> at ten keys: a record of
  optional values, with no key set when \<open>params\<close> is \<open>None\<close>.
\<close>

datatype image_arg = Array image | Path string

record params =
  clip_limit :: "real option"
  tile_grid_size :: "(nat \<times> nat) option"
  low_contrast_threshold :: "real option"
  min_clip_limit :: "real option"
  max_clip_limit :: "real option"
  radius :: "int option"
  eps :: "real option"
  alpha :: "real option"
  beta :: "real option"
  cell_size_threshold :: "real option"

definition no_params :: params where
  "no_params = \<lparr>clip_limit = None, tile_grid_size = None, low_contrast_threshold = None,
     min_clip_limit = None, max_clip_limit = None, radius = None, eps = None, alpha = None,
     beta = None, cell_size_threshold = None\<rparr>"

definition dict_get :: "'a option \<Rightarrow> 'a \<Rightarrow> 'a" where
  "dict_get entry dflt = (case entry of None \<Rightarrow> dflt | Some v \<Rightarrow> v)"

text \<open>
  \<open>enhanced[:, :, i]\<close> and the assignment \<open>enhanced[:, :, i] = v\<close>: numpy raises
  IndexError when the array has no channel \<open>i\<close>, and ValueError when \<open>v\<close> has not the shape
  \<open>(h, w)\<close> (broadcasting is not modelled).
\<close>

definition get_channel :: "image \<Rightarrow> nat \<Rightarrow> error + plane" where
  "get_channel img i =
     (if list_all (list_all (\<lambda>p. i < length p)) img
      then Inr (map (map (\<lambda>p. p ! i)) img) else Inl IndexError)"

definition set_channel :: "image \<Rightarrow> nat \<Rightarrow> plane \<Rightarrow> error + image" where
  "set_channel img i v =
     (if \<not> list_all (list_all (\<lambda>p. i < length p)) img then Inl IndexError
      else if shape2 v \<noteq> shape2 img then Inl ValueError
      else Inr (map2 (map2 (\<lambda>p x. p[i := x])) img v))"

text \<open>
  The loop \<open>for i in range(3)\<close> of the method \<open>'guided'\<close>. \<open>guided_filter\<close> is code of
  the repository that is not among the sources (\<open>enhance/guided_filter.py\<close>): it is a
  parameter, returning the plane as it is stored after the cast to \<open>uint8\<close>.
\<close>

fun guided_loop ::
  "(plane \<Rightarrow> plane \<Rightarrow> int \<Rightarrow> real \<Rightarrow> error + plane) \<Rightarrow> int \<Rightarrow> real \<Rightarrow> nat list \<Rightarrow> image
     \<Rightarrow> error + image" where
  "guided_loop guided_filter r e [] enhanced = Inr enhanced"
| "guided_loop guided_filter r e (i # todo) enhanced =
     (case get_channel enhanced i of
        Inl err \<Rightarrow> Inl err
      | Inr ch \<Rightarrow>
     case guided_filter ch ch r e of
        Inl err \<Rightarrow> Inl err
      | Inr v \<Rightarrow>
     case set_channel enhanced i v of
        Inl err \<Rightarrow> Inl err
      | Inr enhanced' \<Rightarrow> guided_loop guided_filter r e todo enhanced')"

text \<open>
  \<open>enhance_image\<close>. \<open>enhance_microscopy_image\<close> (\<open>enhance/adaptive.py\<close>) is code of the
  repository that is not among the sources either, and is a parameter too.
\<close>

definition enhance_image ::
  "cv2 \<Rightarrow> (image \<Rightarrow> error + image) \<Rightarrow> (plane \<Rightarrow> plane \<Rightarrow> int \<Rightarrow> real \<Rightarrow> error + plane)
     \<Rightarrow> image_arg \<Rightarrow> string \<Rightarrow> bool \<Rightarrow> int \<Rightarrow> params option \<Rightarrow> error + image" where
  "enhance_image cv enhance_microscopy_image guided_filter input method
       small_cell_enhancement denoise_level params_arg =
     (case (case input of
              Path path \<Rightarrow>
                (case cv_imread cv path of
                   None \<Rightarrow> Inl ValueError
                 | Some bgr \<Rightarrow> cv_cvtColor_BGR2RGB cv bgr)
            | Array a \<Rightarrow> Inr a) of
        Inl e \<Rightarrow> Inl e
      | Inr img \<Rightarrow>
          let params = (case params_arg of None \<Rightarrow> no_params | Some d \<Rightarrow> d)
          in case (if method = ''adaptive'' then enhance_microscopy_image img
                   else if method = ''clahe'' then
                     apply_clahe cv img (dict_get (clip_limit params) 2.0)
                       (dict_get (tile_grid_size params) (8, 8))
                   else if method = ''adaptive_clahe'' then
                     adaptive_clahe cv img (dict_get (low_contrast_threshold params) 30)
                       (dict_get (min_clip_limit params) 1.0)
                       (dict_get (max_clip_limit params) 4.0)
                   else if method = ''guided'' then
                     guided_loop guided_filter (dict_get (radius params) 2)
                       (dict_get (eps params) 0.2) [0, 1, 2] img
                   else if method = ''basic'' then
                     cv_convertScaleAbs cv img (dict_get (alpha params) 1.2)
                       (dict_get (beta params) 10)
                   else Inl ValueError) of
               Inl e \<Rightarrow> Inl e
             | Inr enhanced \<Rightarrow>
          case (if small_cell_enhancement
                then enhance_small_cells cv enhanced
                       (dict_get (cell_size_threshold params) 0.005)
                else Inr enhanced) of
               Inl e \<Rightarrow> Inl e
             | Inr enhanced' \<Rightarrow>
                 if 0 < denoise_level
                 then cv_fastNlMeansDenoisingColored cv enhanced' denoise_level
                 else Inr enhanced')"

text \<open>
  What OpenCV documents about the shapes of its results, for the functions the
  enhancement methods call: a colour conversion between three-channel spaces, the
  equalisation, the scaling and the denoising return an array of the shape of their
  input; \<open>cv2.split\<close> returns one plane of shape \<open>(h, w)\<close> for each channel;
  \<open>cv2.merge\<close> of \<open>n\<close> planes returns an array of shape \<open>(h, w, n)\<close>.
\<close>

definition preserves_shape :: "(image \<Rightarrow> error + image) \<Rightarrow> bool" where
  "preserves_shape f \<longleftrightarrow> (\<forall>a b. f a = Inr b \<longrightarrow> shape3 b = shape3 a)"

definition shape_preserving :: "cv2 \<Rightarrow> bool" where
  "shape_preserving cv \<longleftrightarrow>
     preserves_shape (cv_cvtColor_RGB2LAB cv)
   \<and> preserves_shape (cv_cvtColor_LAB2RGB cv)
   \<and> (\<forall>alpha beta. preserves_shape (\<lambda>a. cv_convertScaleAbs cv a alpha beta))
   \<and> (\<forall>h. preserves_shape (\<lambda>a. cv_fastNlMeansDenoisingColored cv a h))
   \<and> (\<forall>clip grid l l'. cv_clahe_apply cv clip grid l = Inr l' \<longrightarrow> shape2 l' = shape2 l)
   \<and> (\<forall>a chs. cv_split cv a = Inr chs \<longrightarrow>
          list_all (\<lambda>c. shape2 c = shape2 a) chs
        \<and> list_all (list_all (\<lambda>p. length p = length chs)) a)
   \<and> (\<forall>chs b. cv_merge cv chs = Inr b \<longrightarrow>
          chs \<noteq> [] \<and> shape3 b = map (map (\<lambda>v. length chs)) (hd chs))"

text \<open>The image \<open>diagonal_img\<close> with its first channel inverted.\<close>

definition inverted_img :: image where
  "inverted_img = [[[5, 250, 250], [245, 10, 10], [245, 10, 10]],
                   [[245, 10, 10], [5, 250, 250], [245, 10, 10]],
                   [[245, 10, 10], [245, 10, 10], [245, 10, 10]]]"

section \<open>Properties of non-maximum suppression\<close>

subsection \<open>The loop as a greedy selection\<close>

lemma next_order_filter:
  "next_order boxes thr i rest = filter (\<lambda>j. fp_le (iou (boxes ! i) (boxes ! j)) thr) rest"
proof -
  let ?P = "\<lambda>j. fp_le (iou (boxes ! i) (boxes ! j)) thr"
  have "filter ?P rest = filter ?P (map ((!) rest) [0..<length rest])"
    by (simp add: map_nth)
  also have "\<dots> = map ((!) rest) (filter (?P \<circ> (!) rest) [0..<length rest])"
    by (simp only: filter_map)
  finally have eq: "filter ?P rest = map ((!) rest) (filter (?P \<circ> (!) rest) [0..<length rest])" .
  have "filter (\<lambda>k. fp_le (map (\<lambda>j. iou (boxes ! i) (boxes ! j)) rest ! k) thr) [0..<length rest]
      = filter (?P \<circ> (!) rest) [0..<length rest]"
    by (rule filter_cong) auto
  then show ?thesis
    by (simp add: next_order_def eq)
qed

lemma greedy_select_subset: "set (greedy_select K xs) \<subseteq> set xs"
  by (induction K xs rule: greedy_select.induct) auto

lemma greedy_select_distinct: "distinct xs \<Longrightarrow> distinct (greedy_select K xs)"
proof (induction K xs rule: greedy_select.induct)
  case (1 K)
  show ?case by simp
next
  case (2 K i rest)
  have "i \<notin> set (greedy_select K (filter (K i) rest))"
    using greedy_select_subset [of K "filter (K i) rest"] "2.prems" by auto
  with 2 show ?case by simp
qed

lemma greedy_select_sorted_wrt:
  "sorted_wrt R xs \<Longrightarrow> sorted_wrt R (greedy_select K xs)"
proof (induction K xs rule: greedy_select.induct)
  case (1 K)
  show ?case by simp
next
  case (2 K i rest)
  have sub: "set (greedy_select K (filter (K i) rest)) \<subseteq> set rest"
    using greedy_select_subset [of K "filter (K i) rest"] by auto
  have "sorted_wrt R (filter (K i) rest)"
    using "2.prems" by (simp add: sorted_wrt_filter)
  then have "sorted_wrt R (greedy_select K (filter (K i) rest))"
    by (rule "2.IH")
  with sub "2.prems" show ?case by auto
qed

lemma greedy_select_pairwise: "sorted_wrt K (greedy_select K xs)"
proof (induction K xs rule: greedy_select.induct)
  case (1 K)
  show ?case by simp
next
  case (2 K i rest)
  have "set (greedy_select K (filter (K i) rest)) \<subseteq> set (filter (K i) rest)"
    by (rule greedy_select_subset)
  with 2 show ?case by auto
qed

lemma greedy_select_cong:
  "(\<And>i j. i \<in> set xs \<Longrightarrow> j \<in> set xs \<Longrightarrow> K i j = K' i j)
     \<Longrightarrow> greedy_select K xs = greedy_select K' xs"
proof (induction K xs rule: greedy_select.induct)
  case (1 K)
  show ?case by simp
next
  case (2 K i rest)
  have f: "filter (K i) rest = filter (K' i) rest"
    by (rule filter_cong) (auto simp: "2.prems")
  have "greedy_select K (filter (K i) rest) = greedy_select K' (filter (K i) rest)"
    by (rule "2.IH") (auto simp: "2.prems")
  with f show ?case by simp
qed

lemma greedy_select_all: "sorted_wrt K xs \<Longrightarrow> greedy_select K xs = xs"
proof (induction K xs rule: greedy_select.induct)
  case (1 K)
  show ?case by simp
next
  case (2 K i rest)
  have f: "filter (K i) rest = rest"
    using "2.prems" by (auto simp: filter_id_conv)
  with 2 show ?case by simp
qed

lemma nms_loop_greedy:
  "nms_loop boxes thr keep order
     = keep @ greedy_select (\<lambda>i j. fp_le (iou (boxes ! i) (boxes ! j)) thr) order"
  by (induction boxes thr keep order rule: nms_loop.induct)
     (simp_all add: next_order_filter)

subsection \<open>The order of the scores\<close>

lemma mset_argsort: "mset (argsort scores) = mset [0..<length scores]"
proof -
  have "mset (argsort scores) = mset (map snd (zip scores [0..<length scores]))"
    unfolding argsort_def mset_map by (simp only: mset_sort)
  also have "map snd (zip scores [0..<length scores]) = [0..<length scores]"
    by simp
  finally show ?thesis .
qed

lemma set_argsort: "set (argsort scores) = {0..<length scores}"
  using mset_eq_setD [OF mset_argsort [of scores]] by simp

lemma distinct_argsort: "distinct (argsort scores)"
  using mset_eq_imp_distinct_iff [OF mset_argsort [of scores]] by simp

lemma length_argsort: "length (argsort scores) = length scores"
  by (simp add: argsort_def)

lemma argsort_ascending: "sorted_wrt (\<lambda>i j. scores ! i \<le> scores ! j) (argsort scores)"
proof -
  let ?zs = "sort_key fst (zip scores [0..<length scores])"
  have srt: "sorted_wrt (\<lambda>p q. fst p \<le> fst q) ?zs"
    using sorted_sort_key [of fst "zip scores [0..<length scores]"]
    by (simp add: sorted_map)
  have el: "fst p = scores ! snd p" if "p \<in> set ?zs" for p
  proof -
    from that have "p \<in> set (zip scores [0..<length scores])" by simp
    then show ?thesis by (auto simp: set_zip)
  qed
  have "sorted_wrt (\<lambda>p q. scores ! snd p \<le> scores ! snd q) ?zs"
    by (rule sorted_wrt_mono_rel [OF _ srt]) (simp add: el)
  then show ?thesis
    by (simp add: argsort_def sorted_wrt_map)
qed

lemma order_descending:
  "sorted_wrt (\<lambda>i j. scores ! j \<le> scores ! i) (rev (argsort scores))"
  using argsort_ascending [of scores] by (simp add: sorted_wrt_rev)
subsection \<open>Intersection over union\<close>

lemma inter_nonneg: "0 \<le> inter a b"
  by (simp add: inter_def Let_def)

lemma inter_commute: "inter a b = inter b a"
  by (simp add: inter_def Let_def max.commute min.commute)

lemma iou_commute: "iou a b = iou b a"
  by (simp add: iou_def inter_commute [of a b] add.commute)

lemma inter_pos_bounds:
  assumes "0 < inter a b"
  shows "0 < area a \<and> inter a b \<le> area a"
proof -
  define w where "w = min (x2 a) (x2 b) - max (x1 a) (x1 b)"
  define h where "h = min (y2 a) (y2 b) - max (y1 a) (y1 b)"
  have eq: "inter a b = max 0 w * max 0 h"
    by (simp add: inter_def Let_def w_def h_def)
  have w: "0 < w"
  proof (rule ccontr)
    assume "\<not> 0 < w"
    then have "max 0 w = 0" by (simp add: max_def)
    with eq assms show False by simp
  qed
  have h: "0 < h"
  proof (rule ccontr)
    assume "\<not> 0 < h"
    then have "max 0 h = 0" by (simp add: max_def)
    with eq assms show False by simp
  qed
  have wa: "w \<le> x2 a - x1 a" unfolding w_def by (simp add: min_def max_def)
  have ha: "h \<le> y2 a - y1 a" unfolding h_def by (simp add: min_def max_def)
  have "inter a b = w * h" using eq w h by simp
  also have "\<dots> \<le> (x2 a - x1 a) * (y2 a - y1 a)"
    using wa ha w h by (intro mult_mono) auto
  finally have le: "inter a b \<le> area a" by (simp add: area_def)
  with assms show ?thesis by simp
qed

lemma denominator_pos:
  assumes "0 < inter a b"
  shows "0 < area a + area b - inter a b"
proof -
  have "inter a b \<le> area a" using inter_pos_bounds [OF assms] by simp
  moreover have "0 < area b"
    using inter_pos_bounds [of b a] assms by (simp add: inter_commute [of b a])
  ultimately show ?thesis by simp
qed

lemma zero_denominator_inter:
  "area a + area b - inter a b = 0 \<Longrightarrow> inter a b = 0"
  using denominator_pos [of a b] inter_nonneg [of a b] by (cases "inter a b = 0") auto

lemma proper_area_pos: "proper b \<Longrightarrow> 0 < area b"
  by (simp add: proper_def area_def)

lemma proper_denominator_pos:
  assumes "proper a" "proper b"
  shows "0 < area a + area b - inter a b"
proof (cases "0 < inter a b")
  case True
  then show ?thesis by (rule denominator_pos)
next
  case False
  then have "inter a b = 0" using inter_nonneg [of a b] by simp
  with proper_area_pos [OF assms(1)] proper_area_pos [OF assms(2)] show ?thesis by simp
qed

lemma iou_NaN_iff: "iou a b = NaN \<longleftrightarrow> area a + area b - inter a b = 0"
  using zero_denominator_inter [of a b] by (auto simp: iou_def fdiv_def)

lemma iou_Fin:
  "area a + area b - inter a b \<noteq> 0
     \<Longrightarrow> iou a b = Fin (inter a b / (area a + area b - inter a b))"
  by (simp add: iou_def fdiv_def)

lemma fp_le_not_gt: "x \<noteq> NaN \<Longrightarrow> fp_le x t \<longleftrightarrow> \<not> fp_gt x t"
  by (cases x) auto

lemma fp_le_imp_not_gt: "fp_le x t \<Longrightarrow> \<not> fp_gt x t"
  by (cases x) auto

lemma inter_self: "proper a \<Longrightarrow> inter a a = area a"
  by (simp add: inter_def Let_def area_def proper_def max_def)

lemma iou_self_iff: "iou a a = Fin 1 \<longleftrightarrow> proper a"
proof
  assume p: "proper a"
  then have "0 < area a" by (rule proper_area_pos)
  with p show "iou a a = Fin 1"
    by (simp add: iou_def fdiv_def inter_self)
next
  assume one: "iou a a = Fin 1"
  then have d: "area a + area a - inter a a \<noteq> 0"
    using iou_NaN_iff [of a a] by auto
  with one have "inter a a / (area a + area a - inter a a) = 1"
    by (simp add: iou_Fin)
  with d have "inter a a \<noteq> 0" by auto
  then have "0 < inter a a" using inter_nonneg [of a a] by simp
  then have "0 < max 0 (x2 a - x1 a) * max 0 (y2 a - y1 a)"
    by (simp add: inter_def Let_def)
  then have "0 < x2 a - x1 a \<and> 0 < y2 a - y1 a"
    by (auto simp: max_def zero_less_mult_iff split: if_splits)
  then show "proper a" by (simp add: proper_def)
qed

lemma apart_inter:
  "x2 a \<le> x1 b \<or> x2 b \<le> x1 a \<or> y2 a \<le> y1 b \<or> y2 b \<le> y1 a \<Longrightarrow> inter a b = 0"
  by (auto simp: inter_def Let_def max_def min_def)

lemma iou_no_overlap:
  "inter a b = 0 \<Longrightarrow> area a + area b \<noteq> 0 \<Longrightarrow> iou a b = Fin 0"
  by (simp add: iou_def fdiv_def)

lemma fp_eq_refl_iff: "fp_eq x x \<longleftrightarrow> x \<noteq> NaN"
  by (cases x) auto
subsection \<open>What \<open>nms\<close> returns\<close>

lemma nms_equal_lengths:
  assumes "length boxes = length scores"
  shows "nms boxes scores thr
    = Inr (greedy_select (\<lambda>i j. fp_le (iou (boxes ! i) (boxes ! j)) thr) (rev (argsort scores)))"
proof (cases "boxes = []")
  case True
  with assms show ?thesis by (simp add: nms_def argsort_def)
next
  case False
  have "\<not> list_ex (\<lambda>i. length boxes \<le> i) (rev (argsort scores))"
    using assms by (auto simp: list_ex_iff set_argsort)
  with False show ?thesis
    by (simp add: nms_def Let_def nms_loop_greedy)
qed

lemma proper_keeps_eq:
  assumes "list_all proper boxes" "i < length boxes" "j < length boxes"
  shows "fp_le (iou (boxes ! i) (boxes ! j)) thr \<longleftrightarrow> \<not> fp_gt (iou (boxes ! i) (boxes ! j)) thr"
proof -
  have "proper (boxes ! i)" "proper (boxes ! j)"
    using assms by (auto simp: list_all_length)
  then have "0 < area (boxes ! i) + area (boxes ! j) - inter (boxes ! i) (boxes ! j)"
    by (rule proper_denominator_pos)
  then have "iou (boxes ! i) (boxes ! j) \<noteq> NaN"
    by (simp add: iou_NaN_iff)
  then show ?thesis by (rule fp_le_not_gt)
qed

lemma nms_proper_spec:
  assumes len: "length boxes = length scores" and pbox: "list_all proper boxes"
  shows "nms boxes scores thr = Inr (nms_spec boxes scores thr)"
proof -
  have "greedy_select (\<lambda>i j. fp_le (iou (boxes ! i) (boxes ! j)) thr) (rev (argsort scores))
      = greedy_select (\<lambda>i j. \<not> fp_gt (iou (boxes ! i) (boxes ! j)) thr) (rev (argsort scores))"
  proof (rule greedy_select_cong)
    fix i j
    assume "i \<in> set (rev (argsort scores))" "j \<in> set (rev (argsort scores))"
    then have "i < length boxes" "j < length boxes"
      using len by (simp_all add: set_argsort)
    with pbox show "fp_le (iou (boxes ! i) (boxes ! j)) thr
        \<longleftrightarrow> \<not> fp_gt (iou (boxes ! i) (boxes ! j)) thr"
      by (rule proper_keeps_eq)
  qed
  then show ?thesis
    by (simp add: nms_equal_lengths [OF len] nms_spec_def)
qed

lemma sorted_wrt_sym_all:
  assumes "sorted_wrt R xs" "distinct xs" "\<And>a b. R a b \<Longrightarrow> R b a"
    "a \<in> set xs" "b \<in> set xs" "a \<noteq> b"
  shows "R a b"
proof -
  from assms(4) obtain p where p: "p < length xs" "xs ! p = a" by (auto simp: in_set_conv_nth)
  from assms(5) obtain q where q: "q < length xs" "xs ! q = b" by (auto simp: in_set_conv_nth)
  have "p \<noteq> q" using p q assms(6) by auto
  then consider "p < q" | "q < p" by linarith
  then show ?thesis
  proof cases
    case 1
    then show ?thesis using assms(1) p q by (auto simp: sorted_wrt_iff_nth_less)
  next
    case 2
    then have "R b a" using assms(1) p q by (auto simp: sorted_wrt_iff_nth_less)
    then show ?thesis by (rule assms(3))
  qed
qed

lemma nms_keep_facts:
  assumes len: "length boxes = length scores" and k: "nms boxes scores thr = Inr keep"
  shows "set keep \<subseteq> {0..<length boxes}" "distinct keep"
    "sorted_wrt (\<lambda>i j. fp_le (iou (boxes ! i) (boxes ! j)) thr) keep"
    "sorted_wrt (\<lambda>i j. scores ! j \<le> scores ! i) keep"
proof -
  let ?K = "\<lambda>i j. fp_le (iou (boxes ! i) (boxes ! j)) thr"
  have keep: "keep = greedy_select ?K (rev (argsort scores))"
    using k nms_equal_lengths [OF len, of thr] by simp
  show "set keep \<subseteq> {0..<length boxes}"
    using greedy_select_subset [of ?K "rev (argsort scores)"] len
    by (simp add: keep set_argsort)
  show "distinct keep"
    unfolding keep by (rule greedy_select_distinct) (simp add: distinct_argsort)
  show "sorted_wrt ?K keep"
    unfolding keep by (rule greedy_select_pairwise)
  show "sorted_wrt (\<lambda>i j. scores ! j \<le> scores ! i) keep"
    unfolding keep by (rule greedy_select_sorted_wrt) (rule order_descending)
qed

lemma nms_keep_pairwise:
  assumes len: "length boxes = length scores" and k: "nms boxes scores thr = Inr keep"
    and ij: "i \<in> set keep" "j \<in> set keep" "i \<noteq> j"
  shows "fp_le (iou (boxes ! i) (boxes ! j)) thr"
proof -
  let ?K = "\<lambda>i j. fp_le (iou (boxes ! i) (boxes ! j)) thr"
  have "?K i j"
  proof (rule sorted_wrt_sym_all [where R = ?K and xs = keep])
    show "sorted_wrt ?K keep" by (rule nms_keep_facts(3) [OF len k])
    show "distinct keep" by (rule nms_keep_facts(2) [OF len k])
    show "?K b a" if "?K a b" for a b
      using that by (simp add: iou_commute [of "boxes ! b" "boxes ! a"])
    show "i \<in> set keep" by (rule ij(1))
    show "j \<in> set keep" by (rule ij(2))
    show "i \<noteq> j" by (rule ij(3))
  qed
  then show ?thesis .
qed



lemma nms_loop_head:
  "set (nms_loop boxes thr keep (i # rest))
     \<subseteq> set keep \<union> {i} \<union> {j \<in> set rest. fp_le (iou (boxes ! i) (boxes ! j)) thr}"
  using greedy_select_subset
    [of "\<lambda>i j. fp_le (iou (boxes ! i) (boxes ! j)) thr"
        "filter (\<lambda>j. fp_le (iou (boxes ! i) (boxes ! j)) thr) rest"]
  by (auto simp: nms_loop_greedy)







lemma sorted_wrt_pairwise:
  assumes "distinct xs" "\<And>a b. a \<in> set xs \<Longrightarrow> b \<in> set xs \<Longrightarrow> a \<noteq> b \<Longrightarrow> R a b"
  shows "sorted_wrt R xs"
  unfolding sorted_wrt_iff_nth_less
proof (intro allI impI)
  fix i j
  assume ij: "i < j" "j < length xs"
  then have "xs ! i \<noteq> xs ! j"
    using assms(1) by (simp add: nth_eq_iff_index_eq)
  with ij show "R (xs ! i) (xs ! j)"
    by (intro assms(2)) auto
qed

lemma argsort_strictly_descending:
  assumes desc: "sorted_wrt (\<lambda>a b. b \<le> a) ks" and dist: "distinct ks"
  shows "rev (argsort ks) = [0..<length ks]"
proof -
  let ?n = "length ks"
  have inj: "inj_on ((!) ks) {0..<?n}"
    using dist by (intro inj_on_nth) auto
  have s1: "sorted (map ((!) ks) (argsort ks))"
    using argsort_ascending [of ks] by (simp add: sorted_wrt_map)
  have d1: "distinct (map ((!) ks) (argsort ks))"
    using inj by (simp add: distinct_map distinct_argsort set_argsort)
  have e: "map ((!) ks) (rev [0..<?n]) = rev ks"
    by (simp add: rev_map [symmetric] map_nth)
  have "sorted_wrt (\<lambda>a b. a \<le> b) (rev ks)"
    using desc by (simp add: sorted_wrt_rev)
  then have s2: "sorted (map ((!) ks) (rev [0..<?n]))"
    by (simp only: e)
  have d2: "distinct (map ((!) ks) (rev [0..<?n]))"
    using dist by (simp only: e distinct_rev)
  have st: "set (map ((!) ks) (argsort ks)) = set (map ((!) ks) (rev [0..<?n]))"
    by (simp add: set_argsort)
  have "map ((!) ks) (argsort ks) = map ((!) ks) (rev [0..<?n])"
    by (rule sorted_distinct_set_unique [OF s1 d1 s2 d2 st])
  moreover have "inj_on ((!) ks) (set (argsort ks) \<union> set (rev [0..<?n]))"
    using inj by (simp add: set_argsort)
  ultimately have "argsort ks = rev [0..<?n]"
    by (simp only: inj_on_map_eq_map)
  then show ?thesis by simp
qed

text \<open>
  Claim C4. Let \<open>keep\<close> be what \<open>nms\<close> returns on \<open>N\<close> boxes and \<open>N\<close> scores.
  Running \<open>nms\<close> with the same threshold on \<open>boxes[keep]\<close> and \<open>scores[keep]\<close>
  returns every index of the kept arrays exactly once: nothing is suppressed. When the
  kept scores are pairwise different, the indices come back in their order
  \<open>0, 1, ...\<close> (equal scores may swap places, by the tie-break of \<open>argsort\<close>).
\<close>

theorem nms_idempotent:
  assumes len: "length boxes = length scores" and k: "nms boxes scores thr = Inr keep"
  shows "\<exists>keep'. nms (map ((!) boxes) keep) (map ((!) scores) keep) thr = Inr keep'
           \<and> set keep' = {0..<length keep} \<and> distinct keep' \<and> length keep' = length keep
           \<and> (distinct (map ((!) scores) keep) \<longrightarrow> keep' = [0..<length keep])"
proof -
  let ?kb = "map ((!) boxes) keep"
  let ?ks = "map ((!) scores) keep"
  let ?K = "\<lambda>i j. fp_le (iou (?kb ! i) (?kb ! j)) thr"
  let ?ord = "rev (argsort ?ks)"
  note fs = nms_keep_facts [OF len k]
  have dord: "distinct ?ord" by (simp add: distinct_argsort)
  have sord: "set ?ord = {0..<length keep}" by (simp add: set_argsort)
  have pw: "?K p q" if "p \<in> set ?ord" "q \<in> set ?ord" "p \<noteq> q" for p q
  proof -
    from that sord have p: "p < length keep" and q: "q < length keep" by auto
    with that(3) fs(2) have ne: "keep ! p \<noteq> keep ! q"
      by (simp add: nth_eq_iff_index_eq)
    have "fp_le (iou (boxes ! (keep ! p)) (boxes ! (keep ! q))) thr"
      by (rule nms_keep_pairwise [OF len k]) (use p q ne in auto)
    with p q show ?thesis by simp
  qed
  have "sorted_wrt ?K ?ord"
    by (rule sorted_wrt_pairwise [OF dord]) (rule pw)
  then have all: "greedy_select ?K ?ord = ?ord"
    by (rule greedy_select_all)
  have "length ?kb = length ?ks" by simp
  then have run: "nms ?kb ?ks thr = Inr ?ord"
    using all by (simp only: nms_equal_lengths)
  have lord: "length ?ord = length keep" by (simp add: length_argsort)
  have same: "distinct ?ks \<longrightarrow> ?ord = [0..<length keep]"
  proof
    assume d: "distinct ?ks"
    have "sorted_wrt (\<lambda>a b. b \<le> a) ?ks"
      using fs(4) by (simp add: sorted_wrt_map)
    from argsort_strictly_descending [OF this d] show "?ord = [0..<length keep]"
      by simp
  qed
  from run sord dord lord same show ?thesis by blast
qed

text \<open>
  The theorem at the specification's example: the kept boxes \<open>[2, 0]\<close> are both kept
  again.
\<close>

theorem nms_idempotent_witness:
  "length spec_boxes = length [0.9, 0.8, 0.95 :: real]
   \<and> nms spec_boxes [0.9, 0.8, 0.95] 0.5 = Inr [2, 0]
   \<and> distinct (map ((!) [0.9, 0.8, 0.95 :: real]) [2, 0])
   \<and> nms (map ((!) spec_boxes) [2, 0]) (map ((!) [0.9, 0.8, 0.95]) [2, 0]) 0.5 = Inr [0, 1]"
proof -
  have len: "length spec_boxes = length [0.9, 0.8, 0.95 :: real]"
    by (simp add: spec_boxes_def)
  have run: "nms spec_boxes [0.9, 0.8, 0.95] 0.5 = Inr [2, 0]"
    by (simp add: nms_def argsort_def upt_rec spec_boxes_def next_order_filter
        iou_def inter_def area_def fdiv_def)
  have d: "distinct (map ((!) [0.9, 0.8, 0.95 :: real]) [2, 0])"
    by simp
  from nms_idempotent [OF len run]
  obtain keep' where
    r: "nms (map ((!) spec_boxes) [2, 0]) (map ((!) [0.9, 0.8, 0.95]) [2, 0]) 0.5 = Inr keep'"
    and s: "distinct (map ((!) [0.9, 0.8, 0.95 :: real]) [2, 0]) \<longrightarrow> keep' = [0..<length [2, 0 :: nat]]"
    by blast
  from s d have "keep' = [0..<length [2, 0 :: nat]]" by (rule mp)
  then have "keep' = [0, 1]" by (simp add: upt_rec)
  with r have again:
    "nms (map ((!) spec_boxes) [2, 0]) (map ((!) [0.9, 0.8, 0.95]) [2, 0]) 0.5 = Inr [0, 1]"
    by (simp only:)
  from len run d again show ?thesis by (intro conjI)
qed

section \<open>Properties of post-processing\<close>

lemma sigmoid_pos: "0 < sigmoid x"
  by (simp add: sigmoid_def add_pos_pos)

lemma sigmoid_less_iff: "sigmoid a < sigmoid b \<longleftrightarrow> a < b"
proof -
  have "0 < 1 + exp (- a)" "0 < 1 + exp (- b)" by (simp_all add: add_pos_pos)
  then have "sigmoid a < sigmoid b \<longleftrightarrow> 1 + exp (- b) < 1 + exp (- a)"
    by (simp add: sigmoid_def frac_less_eq field_simps)
  then show ?thesis by simp
qed

lemma sigmoid_le_iff: "sigmoid a \<le> sigmoid b \<longleftrightarrow> a \<le> b"
  using sigmoid_less_iff [of b a] by (simp add: not_less [symmetric])

lemma sigmoid_zero: "sigmoid 0 = 1 / 2"
  by (simp add: sigmoid_def)

lemma sigmoid_gt_half: "1 / 2 < sigmoid x \<longleftrightarrow> 0 < x"
  using sigmoid_less_iff [of 0 x] by (simp add: sigmoid_zero)

lemma mask_select_map:
  "mask_select (map P xs) (map f xs) = map f (filter P xs)"
  by (induction xs) (simp_all add: mask_select_def)

lemma greedy_select_hd:
  "order \<noteq> [] \<Longrightarrow> greedy_select K order \<noteq> [] \<and> hd (greedy_select K order) = hd order"
  by (cases order) simp_all

lemma post_process_unfold:
  assumes "5 \<le> shape1 p"
  shows "post_process p thr =
     (case nms (map box_of_row (above_threshold p thr)) (map confidence (above_threshold p thr)) 0.5 of
        Inl e \<Rightarrow> Inl e
      | Inr keep \<Rightarrow>
          Inr (map ((!) (map box_of_row (above_threshold p thr))) keep,
               map ((!) (map confidence (above_threshold p thr))) keep,
               map ((!) (if 5 < shape1 p
                         then map np_argmax
                           (mask_select (map (\<lambda>r. thr < confidence r) (data p))
                              (map (drop 5) (data p)))
                         else replicate (length (above_threshold p thr)) 0)) keep))"
proof -
  have m: "map (\<lambda>s. thr < s) (map confidence (data p))
      = map (\<lambda>r. thr < confidence r) (data p)"
    by simp
  have c: "map (\<lambda>r. sigmoid (r ! 4)) (data p) = map confidence (data p)"
    by (simp add: confidence_def)
  have b: "mask_select (map (\<lambda>r. thr < confidence r) (data p)) (map box_of_row (data p))
      = map box_of_row (above_threshold p thr)"
    by (simp add: mask_select_map above_threshold_def)
  have s: "mask_select (map (\<lambda>r. thr < confidence r) (data p)) (map confidence (data p))
      = map confidence (above_threshold p thr)"
    by (simp add: mask_select_map above_threshold_def)
  have n: "\<not> shape1 p < 5" using assms by simp
  show ?thesis
    unfolding post_process_def Let_def c m b s
    by (simp only: n if_False length_map)
qed


lemma half_less_sigmoid: "1 < sigmoid x * 2 \<longleftrightarrow> 0 < x"
  using sigmoid_gt_half [of x] by simp

lemma post_process_boundary:
  "post_process boundary_prediction 0.5
     = Inr ([\<lparr>x1 = 0.5, y1 = 0.5, x2 = 0.9, y2 = 0.9\<rparr>], [sigmoid 2], [0])"
  by (simp add: post_process_def boundary_prediction_def mask_select_def half_less_sigmoid
      box_of_row_def nms_def argsort_def next_order_filter Let_def)



section \<open>Properties of small-cell enhancement\<close>

lemma length_slice: "length (slice a b xs) = min (b - a) (length xs - a)"
  by (simp add: slice_def)

lemma nth_slice:
  assumes "k < length (slice a b xs)"
  shows "slice a b xs ! k = xs ! (a + k)"
proof -
  from assms have k: "k < b - a" "k < length xs - a"
    by (simp_all add: length_slice)
  then have "a \<le> length xs" by arith
  with k show ?thesis by (simp add: slice_def)
qed

lemma take_slice_drop: "take a xs @ slice a b xs @ drop (max a b) xs = xs"
proof (cases "a \<le> b")
  case True
  then have "b - a + a = b" by arith
  then have "drop (b - a) (drop a xs) = drop (max a b) xs"
    using True by (simp add: max_def)
  moreover have "take (b - a) (drop a xs) @ drop (b - a) (drop a xs) = drop a xs"
    by (rule append_take_drop_id)
  ultimately have "slice a b xs @ drop (max a b) xs = drop a xs"
    by (simp only: slice_def)
  then show ?thesis by simp
next
  case False
  then show ?thesis by (simp add: slice_def max_def)
qed

lemma splice_nth_outside:
  assumes len: "length v = length (slice a b xs)" and k: "k < length xs"
    and out: "\<not> (a \<le> k \<and> k < b)"
  shows "(take a xs @ v @ drop (max a b) xs) ! k = xs ! k"
proof (cases "k < a")
  case True
  with k show ?thesis by (simp add: nth_append)
next
  case False
  with out have kb: "b \<le> k" "a \<le> k" by auto
  have lv: "length v = min (b - a) (length xs - a)"
    using len by (simp add: length_slice)
  have la: "length (take a xs) = a" using kb k by simp
  show ?thesis
  proof (cases "a \<le> b")
    case True
    with kb k lv have l: "length v = b - a" by (simp add: min_def)
    have i: "k - a - (b - a) = k - b" "\<not> k - a < b - a" "b + (k - b) = k"
      using kb True by arith+
    have "(take a xs @ v @ drop (max a b) xs) ! k = (v @ drop (max a b) xs) ! (k - a)"
      using kb la by (simp add: nth_append)
    also have "\<dots> = drop (max a b) xs ! (k - b)"
      using l i by (simp add: nth_append)
    also have "\<dots> = xs ! k"
      using True k kb i by (simp add: max_def)
    finally show ?thesis .
  next
    case False
    with lv have e: "v = []" by simp
    have "a + (k - a) = k" using kb by arith
    with e kb k False la show ?thesis
      by (simp add: nth_append max_def)
  qed
qed

lemma splice_nth_inside:
  assumes len: "length v = length (slice a b xs)" and k: "k < length xs"
    and ins: "a \<le> k" "k < b"
  shows "(take a xs @ v @ drop (max a b) xs) ! k = v ! (k - a)"
proof -
  have lv: "length v = min (b - a) (length xs - a)"
    using len by (simp add: length_slice)
  with k ins have "k - a < length v" by (simp add: min_def) arith
  with k ins show ?thesis by (simp add: nth_append min_def)
qed

lemma set_roi_rows:
  assumes "set_roi img r0 r1 c0 c1 v = Inr out"
  shows "length v = length (slice r0 r1 img)"
    and "\<And>k. k < length v \<Longrightarrow> map length (v ! k) = map length (slice c0 c1 (slice r0 r1 img ! k))"
    and "out = take r0 img
           @ map2 (\<lambda>row vrow. take c0 row @ vrow @ drop (max c0 c1) row) (slice r0 r1 img) v
           @ drop (max r0 r1) img"
proof -
  from assms have sh: "shape3 v = shape3 (get_roi img r0 r1 c0 c1)"
    and o: "out = take r0 img
           @ map2 (\<lambda>row vrow. take c0 row @ vrow @ drop (max c0 c1) row) (slice r0 r1 img) v
           @ drop (max r0 r1) img"
    by (auto simp: set_roi_def split: if_splits)
  from sh have m: "map (map length) v = map (map length) (map (slice c0 c1) (slice r0 r1 img))"
    by (simp add: shape3_def get_roi_def)
  from m have "length (map (map length) v)
      = length (map (map length) (map (slice c0 c1) (slice r0 r1 img)))"
    by (simp only:)
  then show l: "length v = length (slice r0 r1 img)" by simp
  show "map length (v ! k) = map length (slice c0 c1 (slice r0 r1 img ! k))"
    if "k < length v" for k
  proof -
    have "map (map length) v ! k = map (map length) (map (slice c0 c1) (slice r0 r1 img)) ! k"
      by (simp only: m)
    with that l show ?thesis by simp
  qed
  show "out = take r0 img
           @ map2 (\<lambda>row vrow. take c0 row @ vrow @ drop (max c0 c1) row) (slice r0 r1 img) v
           @ drop (max r0 r1) img"
    by (rule o)
qed

lemma set_roi_shape:
  assumes "set_roi img r0 r1 c0 c1 v = Inr out"
  shows "shape3 out = shape3 img"
proof -
  note r = set_roi_rows [OF assms]
  let ?S = "slice r0 r1 img"
  let ?f = "\<lambda>row vrow. take c0 row @ vrow @ drop (max c0 c1) row"
  have mid: "map (map length) (map2 ?f ?S v) = map (map length) ?S"
  proof (rule nth_equalityI)
    show "length (map (map length) (map2 ?f ?S v)) = length (map (map length) ?S)"
      using r(1) by simp
  next
    fix k
    assume "k < length (map (map length) (map2 ?f ?S v))"
    then have k: "k < length v" "k < length ?S" using r(1) by simp_all
    have "map length (?f (?S ! k) (v ! k))
        = map length (take c0 (?S ! k) @ slice c0 c1 (?S ! k) @ drop (max c0 c1) (?S ! k))"
      using r(2) [OF k(1)] by simp
    also have "\<dots> = map length (?S ! k)"
      by (simp only: take_slice_drop)
    finally show "map (map length) (map2 ?f ?S v) ! k = map (map length) ?S ! k"
      using k by simp
  qed
  have "shape3 out = map (map length) (take r0 img) @ map (map length) (map2 ?f ?S v)
      @ map (map length) (drop (max r0 r1) img)"
    unfolding r(3) shape3_def by simp
  also have "\<dots> = map (map length) (take r0 img @ ?S @ drop (max r0 r1) img)"
    unfolding mid by simp
  also have "\<dots> = shape3 img"
    by (simp only: take_slice_drop shape3_def)
  finally show ?thesis .
qed

lemma set_roi_outside:
  assumes s: "set_roi img r0 r1 c0 c1 v = Inr out"
    and y: "y < length img" and x: "x < length (img ! y)"
    and out: "\<not> (r0 \<le> y \<and> y < r1 \<and> c0 \<le> x \<and> x < c1)"
  shows "out ! y ! x = img ! y ! x"
proof -
  note r = set_roi_rows [OF s]
  let ?S = "slice r0 r1 img"
  let ?f = "\<lambda>row vrow. take c0 row @ vrow @ drop (max c0 c1) row"
  have lm: "length (map2 ?f ?S v) = length ?S" using r(1) by simp
  show ?thesis
  proof (cases "r0 \<le> y \<and> y < r1")
    case False
    have "out ! y = img ! y"
      unfolding r(3) by (rule splice_nth_outside [OF lm y False])
    then show ?thesis by simp
  next
    case True
    then have ins: "r0 \<le> y" "y < r1" by simp_all
    have oy: "out ! y = map2 ?f ?S v ! (y - r0)"
      unfolding r(3) by (rule splice_nth_inside [OF lm y ins])
    have k: "y - r0 < length ?S"
      using y ins by (simp add: length_slice) arith
    then have kv: "y - r0 < length v" using r(1) by simp
    have "r0 + (y - r0) = y" using ins by arith
    then have row: "?S ! (y - r0) = img ! y"
      using nth_slice [OF k] by simp
    have oy': "out ! y = take c0 (img ! y) @ v ! (y - r0) @ drop (max c0 c1) (img ! y)"
      using oy k kv row by simp
    have "length (map length (v ! (y - r0))) = length (map length (slice c0 c1 (img ! y)))"
      using r(2) [OF kv] row by simp
    then have lv: "length (v ! (y - r0)) = length (slice c0 c1 (img ! y))" by simp
    from out True have "\<not> (c0 \<le> x \<and> x < c1)" by simp
    from splice_nth_outside [OF lv x this] show ?thesis
      by (simp only: oy')
  qed
qed

lemma set_np_where_positive:
  "set (np_where_positive m) = {(y, x). y < length m \<and> x < length (m ! y) \<and> 0 < m ! y ! x}"
  by (auto simp: np_where_positive_def)

lemma fold_min_le_iff:
  fixes c :: nat
  shows "fold min xs c \<le> y \<longleftrightarrow> list_ex (\<lambda>v. v \<le> y) (c # xs)"
proof -
  have "fold min xs c = Min (set (c # xs))" by (simp only: Min.set_eq_fold)
  then show ?thesis by (simp add: list_ex_iff Min_le_iff del: set_simps) 
qed

lemma le_fold_max_iff:
  fixes c :: nat
  shows "y \<le> fold max xs c \<longleftrightarrow> list_ex (\<lambda>v. y \<le> v) (c # xs)"
proof -
  have "fold max xs c = Max (set (c # xs))" by (simp only: Max.set_eq_fold)
  then show ?thesis by (simp add: list_ex_iff Max_ge_iff del: set_simps)
qed

lemma in_bounding_rect_iff:
  assumes "np_where_positive m = c # cs"
  shows "in_bounding_rect m y x \<longleftrightarrow>
     fold min (map fst cs) (fst c) \<le> y \<and> y \<le> fold max (map fst cs) (fst c)
     \<and> fold min (map snd cs) (snd c) \<le> x \<and> x \<le> fold max (map snd cs) (snd c)"
  unfolding in_bounding_rect_def Let_def assms fold_min_le_iff le_fold_max_iff
  by (simp add: list_ex_iff)

lemma np_where_positive_empty:
  assumes "list_all (list_all (\<lambda>v. v = 0)) m"
  shows "np_where_positive m = []"
proof -
  have "m ! y ! x = 0" if "y < length m" "x < length (m ! y)" for y x
    using assms that by (simp add: list_all_length)
  then have "set (np_where_positive m) = {}"
    by (auto simp: set_np_where_positive)
  then show ?thesis by simp
qed

lemma fold_min_max_const:
  fixes r :: nat
  assumes "list_all (\<lambda>v. v = r) (c # xs)"
  shows "fold min xs c = r" "fold max xs c = r"
proof -
  from assms have s: "set (c # xs) = {r}" by (auto simp: list_all_iff)
  have "fold min xs c = Min (set (c # xs))" by (simp only: Min.set_eq_fold)
  then show "fold min xs c = r" by (simp only: s Min_singleton)
  have "fold max xs c = Max (set (c # xs))" by (simp only: Max.set_eq_fold)
  then show "fold max xs c = r" by (simp only: s Max_singleton)
qed

lemma enhance_small_cells_no_region:
  assumes m: "combined_mask_of cv img cst = Inr m" and e: "np_where_positive m = []"
  shows "enhance_small_cells cv img cst = Inr img"
  by (simp add: enhance_small_cells_def m e)

lemma enhance_small_cells_region:
  assumes m: "combined_mask_of cv img cst = Inr m" and e: "np_where_positive m = c # cs"
  shows "enhance_small_cells cv img cst =
     (let min_y = fold min (map fst cs) (fst c);
          max_y = fold max (map fst cs) (fst c);
          min_x = fold min (map snd cs) (snd c);
          max_x = fold max (map snd cs) (snd c)
      in if min_y < max_y \<and> min_x < max_x then
           (case enhance_region cv (get_roi img min_y (max_y + 1) min_x (max_x + 1)) of
              Inl e \<Rightarrow> Inl e
            | Inr roi_enhanced \<Rightarrow> set_roi img min_y (max_y + 1) min_x (max_x + 1) roi_enhanced)
         else Inr img)"
  by (simp add: enhance_small_cells_def m e Let_def)

text \<open>
  Claim C6. When the mask has been computed and \<open>enhance_small_cells\<close> returns an
  image, that image has the shape of the input, and every pixel outside the tight
  bounding rectangle of the non-zero entries of the mask is the pixel of the input.
\<close>

theorem enhance_small_cells_frame:
  assumes m: "combined_mask_of cv img cst = Inr m"
    and r: "enhance_small_cells cv img cst = Inr out"
  shows "shape3 out = shape3 img
    \<and> (\<forall>y < length img. \<forall>x < length (img ! y).
          \<not> in_bounding_rect m y x \<longrightarrow> out ! y ! x = img ! y ! x)"
proof (cases "np_where_positive m")
  case Nil
  with m r have "out = img" by (simp add: enhance_small_cells_no_region)
  then show ?thesis by simp
next
  case (Cons c cs)
  define min_y where "min_y = fold min (map fst cs) (fst c)"
  define max_y where "max_y = fold max (map fst cs) (fst c)"
  define min_x where "min_x = fold min (map snd cs) (snd c)"
  define max_x where "max_x = fold max (map snd cs) (snd c)"
  note u = enhance_small_cells_region [OF m Cons, unfolded Let_def,
      folded min_y_def max_y_def min_x_def max_x_def]
  show ?thesis
  proof (cases "min_y < max_y \<and> min_x < max_x")
    case False
    with u r have "out = img" by simp
    then show ?thesis by simp
  next
    case True
    with u r obtain v where
      s: "set_roi img min_y (max_y + 1) min_x (max_x + 1) v = Inr out"
      by (auto split: sum.splits)
    have sh: "shape3 out = shape3 img" by (rule set_roi_shape [OF s])
    have "out ! y ! x = img ! y ! x"
      if y: "y < length img" and x: "x < length (img ! y)" and o: "\<not> in_bounding_rect m y x"
      for y x
    proof (rule set_roi_outside [OF s y x])
      from o have "\<not> (min_y \<le> y \<and> y \<le> max_y \<and> min_x \<le> x \<and> x \<le> max_x)"
        unfolding in_bounding_rect_iff [OF Cons] min_y_def max_y_def min_x_def max_x_def .
      then show "\<not> (min_y \<le> y \<and> y < max_y + 1 \<and> min_x \<le> x \<and> x < max_x + 1)"
        by auto
    qed
    with sh show ?thesis by blast
  qed
qed

text \<open>
  Claim C7. When the mask has been computed and every entry of it is \<open>0\<close>,
  \<open>enhance_small_cells\<close> returns the input image: a result, not an error.
\<close>

theorem enhance_small_cells_empty_mask:
  assumes "combined_mask_of cv img cst = Inr m"
    and "list_all (list_all (\<lambda>v. v = 0)) m"
  shows "enhance_small_cells cv img cst = Inr img"
  using assms by (simp add: enhance_small_cells_no_region np_where_positive_empty)

text \<open>
  Claim C10. When the mask has a non-zero entry and all its non-zero entries lie in one
  row \<open>r\<close> or in one column \<open>k\<close>, the test \<open>min_y < max_y and min_x < max_x\<close> fails
  and \<open>enhance_small_cells\<close> returns the input image.
\<close>

theorem enhance_small_cells_single_line:
  assumes m: "combined_mask_of cv img cst = Inr m"
    and ne: "np_where_positive m \<noteq> []"
    and line: "list_all (\<lambda>c. fst c = r) (np_where_positive m)
             \<or> list_all (\<lambda>c. snd c = k) (np_where_positive m)"
  shows "enhance_small_cells cv img cst = Inr img"
proof -
  from ne obtain c cs where e: "np_where_positive m = c # cs"
    by (cases "np_where_positive m") auto
  have g: "\<not> (fold min (map fst cs) (fst c) < fold max (map fst cs) (fst c)
          \<and> fold min (map snd cs) (snd c) < fold max (map snd cs) (snd c))"
  proof -
    from line show ?thesis
    proof
      assume "list_all (\<lambda>c. fst c = r) (np_where_positive m)"
      then have "list_all (\<lambda>v. v = r) (fst c # map fst cs)"
        by (simp add: e list_all_iff)
      from fold_min_max_const [OF this] show ?thesis by simp
    next
      assume "list_all (\<lambda>c. snd c = k) (np_where_positive m)"
      then have "list_all (\<lambda>v. v = k) (snd c # map snd cs)"
        by (simp add: e list_all_iff)
      from fold_min_max_const [OF this] show ?thesis by simp
    qed
  qed
  show ?thesis
    unfolding enhance_small_cells_region [OF m e] Let_def by (simp only: g if_False)
qed

lemma py_int_less_iff:
  assumes "0 \<le> n"
  shows "n < py_int r \<longleftrightarrow> n < \<lfloor>r\<rfloor>"
proof (cases "0 \<le> r")
  case True
  then show ?thesis by (simp add: py_int_def)
next
  case False
  then have "\<lceil>r\<rceil> \<le> 0" "\<lfloor>r\<rfloor> < 0" by (simp_all add: ceiling_le_iff floor_less_iff)
  with assms have "\<not> n < \<lceil>r\<rceil>" "\<not> n < \<lfloor>r\<rfloor>" by linarith+
  with False show ?thesis by (simp only: py_int_def if_False)
qed


lemma diagonal_mask:
  "combined_mask_of demo_cv diagonal_img 0.005 = Inr [[255, 0, 0], [0, 255, 0], [0, 0, 0]]"
  by code_simp

lemma diagonal_run:
  "enhance_small_cells demo_cv diagonal_img 0.005
     = Inr [[[5, 250, 250], [245, 10, 10], gray_px 10],
            [[245, 10, 10], [5, 250, 250], gray_px 10],
            [gray_px 10, gray_px 10, gray_px 10]]"
  by code_simp

lemma diagonal_rect:
  "\<not> in_bounding_rect [[255, 0, 0], [0, 255, 0], [0, 0, 0]] 2 2
   \<and> \<not> in_bounding_rect [[255, 0, 0], [0, 255, 0], [0, 0, 0]] 0 2
   \<and> in_bounding_rect [[255, 0, 0], [0, 255, 0], [0, 0, 0]] 0 1"
  by code_simp

lemma flat_mask:
  "combined_mask_of demo_cv flat_img 0.005 = Inr [[0, 0], [0, 0]]"
  by code_simp

lemma row_mask:
  "combined_mask_of demo_cv row_img 0.005 = Inr [[255, 0, 255], [0, 0, 0]]"
  by code_simp

lemma row_where:
  "np_where_positive [[255, 0, 255], [0, 0, 0]] = [(0, 0), (0, 2)]"
  by code_simp

text \<open>
  The frame theorem on a \<open>3 \<times> 3\<close> image with two bright pixels on the diagonal:
  the rectangle is the upper left \<open>2 \<times> 2\<close> block, whose pixels change, and the
  pixel at \<open>(2, 2)\<close> is the input's.
\<close>

theorem enhance_small_cells_frame_witness:
  "combined_mask_of demo_cv diagonal_img 0.005 = Inr [[255, 0, 0], [0, 255, 0], [0, 0, 0]]
   \<and> enhance_small_cells demo_cv diagonal_img 0.005
       = Inr [[[5, 250, 250], [245, 10, 10], gray_px 10],
              [[245, 10, 10], [5, 250, 250], gray_px 10],
              [gray_px 10, gray_px 10, gray_px 10]]
   \<and> \<not> in_bounding_rect [[255, 0, 0], [0, 255, 0], [0, 0, 0]] 2 2
   \<and> [[[5, 250, 250], [245, 10, 10], gray_px 10],
       [[245, 10, 10], [5, 250, 250], gray_px 10],
       [gray_px 10, gray_px 10, gray_px 10]] ! 2 ! 2 = diagonal_img ! 2 ! 2
   \<and> in_bounding_rect [[255, 0, 0], [0, 255, 0], [0, 0, 0]] 0 1
   \<and> diagonal_img ! 0 ! 1 = [10, 10, 10]"
proof -
  note t = enhance_small_cells_frame [OF diagonal_mask diagonal_run]
  have y: "2 < length diagonal_img" by (simp add: diagonal_img_def)
  have x: "2 < length (diagonal_img ! 2)" by (simp add: diagonal_img_def)
  have o: "\<not> in_bounding_rect [[255, 0, 0], [0, 255, 0], [0, 0, 0]] 2 2"
    using diagonal_rect by (rule conjunct1)
  have i: "in_bounding_rect [[255, 0, 0], [0, 255, 0], [0, 0, 0]] 0 1"
    using diagonal_rect by (elim conjE)
  have same: "[[[5, 250, 250], [245, 10, 10], gray_px 10],
       [[245, 10, 10], [5, 250, 250], gray_px 10],
       [gray_px 10, gray_px 10, gray_px 10]] ! 2 ! 2 = diagonal_img ! 2 ! 2"
    by (rule t [THEN conjunct2, rule_format, OF y x o])
  have p: "diagonal_img ! 0 ! 1 = [10, 10, 10]"
    by (simp add: diagonal_img_def gray_px_def)
  from diagonal_mask diagonal_run o same i p show ?thesis by (intro conjI)
qed

text \<open>The theorem on a flat image, whose mask is empty.\<close>

theorem enhance_small_cells_empty_mask_witness:
  "combined_mask_of demo_cv flat_img 0.005 = Inr [[0, 0], [0, 0]]
   \<and> list_all (list_all (\<lambda>v. v = 0)) [[0, 0], [0 :: 8 word, 0]]
   \<and> enhance_small_cells demo_cv flat_img 0.005 = Inr flat_img"
proof -
  have z: "list_all (list_all (\<lambda>v. v = 0)) [[0, 0], [0 :: 8 word, 0]]" by simp
  from flat_mask z enhance_small_cells_empty_mask [OF flat_mask z]
  show ?thesis by (intro conjI)
qed

text \<open>The theorem on an image whose mask has two non-zero entries, both in row \<open>0\<close>.\<close>

theorem enhance_small_cells_single_line_witness:
  "combined_mask_of demo_cv row_img 0.005 = Inr [[255, 0, 255], [0, 0, 0]]
   \<and> np_where_positive [[255, 0, 255], [0, 0, 0]] = [(0, 0), (0, 2)]
   \<and> list_all (\<lambda>c. fst c = 0) (np_where_positive [[255, 0, 255], [0, 0, 0]])
   \<and> enhance_small_cells demo_cv row_img 0.005 = Inr row_img"
proof -
  have ne: "np_where_positive [[255, 0, 255], [0, 0, 0]] \<noteq> []"
    by (simp add: row_where)
  have l: "list_all (\<lambda>c. fst c = 0) (np_where_positive [[255, 0, 255], [0, 0, 0]])"
    by (simp add: row_where)
  then have d: "list_all (\<lambda>c. fst c = 0) (np_where_positive [[255, 0, 255], [0, 0, 0]])
      \<or> list_all (\<lambda>c. snd c = 0) (np_where_positive [[255, 0, 255], [0, 0, 0]])"
    by (rule disjI1)
  from row_mask row_where l enhance_small_cells_single_line [OF row_mask ne d]
  show ?thesis by (intro conjI)
qed

lemma demo_floor:
  "\<lfloor>real (min (img_height diagonal_img) (img_width diagonal_img)) * 0.7\<rfloor> = 2"
  by code_simp


section \<open>Enhancement preserves the shape of the image\<close>

lemma enhance_small_cells_shape:
  assumes "enhance_small_cells cv img cst = Inr out"
  shows "shape3 out = shape3 img"
proof -
  from assms obtain m where m: "combined_mask_of cv img cst = Inr m"
    by (auto simp: enhance_small_cells_def split: sum.splits)
  show ?thesis
  proof (cases "np_where_positive m")
    case Nil
    with m assms have "out = img" by (simp add: enhance_small_cells_no_region)
    then show ?thesis by simp
  next
    case (Cons c cs)
    note u = enhance_small_cells_region [OF m Cons, unfolded Let_def]
    show ?thesis
    proof (cases "fold min (map fst cs) (fst c) < fold max (map fst cs) (fst c)
        \<and> fold min (map snd cs) (snd c) < fold max (map snd cs) (snd c)")
      case False
      with u assms have "out = img" by simp
      then show ?thesis by simp
    next
      case True
      with u assms obtain v where
        "set_roi img (fold min (map fst cs) (fst c)) (fold max (map fst cs) (fst c) + 1)
           (fold min (map snd cs) (snd c)) (fold max (map snd cs) (snd c) + 1) v = Inr out"
        by (auto split: sum.splits)
      then show ?thesis by (rule set_roi_shape)
    qed
  qed
qed

lemma constant_row_shape:
  assumes "length r = length r'" "list_all (\<lambda>p. length p = n) r'"
  shows "map (\<lambda>v. n) r = map length r'"
proof -
  have "map length r' = map (\<lambda>p. n) r'"
    using assms(2) by (intro map_cong) (auto simp: list_all_iff)
  also have "\<dots> = replicate (length r') n" by (simp add: map_replicate_const)
  also have "\<dots> = map (\<lambda>v. n) r" using assms(1) by (simp add: map_replicate_const)
  finally show ?thesis by simp
qed

lemma constant_shape:
  assumes "shape2 l = shape2 a" "list_all (list_all (\<lambda>p. length p = n)) a"
  shows "map (map (\<lambda>v. n)) l = shape3 a"
proof -
  from assms(1) have ml: "map length l = map length a" by (simp add: shape2_def)
  then have len: "length l = length a" by (rule map_eq_imp_length_eq)
  show ?thesis
    unfolding shape3_def
  proof (rule nth_equalityI)
    show "length (map (map (\<lambda>v. n)) l) = length (map (map length) a)"
      using len by simp
  next
    fix k
    assume "k < length (map (map (\<lambda>v. n)) l)"
    then have k: "k < length l" "k < length a" using len by simp_all
    have "map length l ! k = map length a ! k" by (simp only: ml)
    with k have lk: "length (l ! k) = length (a ! k)" by simp
    have "list_all (\<lambda>p. length p = n) (a ! k)"
      using assms(2) k by (simp add: list_all_length)
    from constant_row_shape [OF lk this] k
    show "map (map (\<lambda>v. n)) l ! k = map (map length) a ! k" by simp
  qed
qed

lemma apply_clahe_shape:
  assumes cv: "shape_preserving cv" and r: "apply_clahe cv img c g = Inr out"
  shows "shape3 out = shape3 img"
proof -
  from r obtain lab l a b l' lab' where
    s1: "cv_cvtColor_RGB2LAB cv img = Inr lab"
    and s2: "cv_split cv lab = Inr [l, a, b]"
    and s3: "cv_clahe_apply cv c g l = Inr l'"
    and s4: "cv_merge cv [l', a, b] = Inr lab'"
    and s5: "cv_cvtColor_LAB2RGB cv lab' = Inr out"
    by (auto simp: apply_clahe_def split: sum.splits list.splits)
  from cv s1 have e1: "shape3 lab = shape3 img"
    by (simp add: shape_preserving_def preserves_shape_def)
  from cv s2 have "list_all (\<lambda>c. shape2 c = shape2 lab) [l, a, b]
      \<and> list_all (list_all (\<lambda>p. length p = length [l, a, b])) lab"
    unfolding shape_preserving_def by blast
  then have e2: "shape2 l = shape2 lab" and three: "list_all (list_all (\<lambda>p. length p = 3)) lab"
    by (simp_all add: eval_nat_numeral)
  from cv s3 have e3: "shape2 l' = shape2 l"
    unfolding shape_preserving_def by blast
  from cv s4 have "shape3 lab' = map (map (\<lambda>v. length [l', a, b])) (hd [l', a, b])"
    unfolding shape_preserving_def by blast
  then have e4: "shape3 lab' = map (map (\<lambda>v. 3)) l'" by simp
  from cv s5 have e5: "shape3 out = shape3 lab'"
    by (simp add: shape_preserving_def preserves_shape_def)
  have "shape2 l' = shape2 lab" using e3 e2 by simp
  from constant_shape [OF this three] have "map (map (\<lambda>v. 3)) l' = shape3 lab" .
  with e5 e4 e1 show ?thesis by simp
qed

lemma adaptive_clahe_shape:
  assumes cv: "shape_preserving cv" and r: "adaptive_clahe cv img t lo hi = Inr out"
  shows "shape3 out = shape3 img"
proof -
  from r obtain c g where "apply_clahe cv img c g = Inr out"
    by (auto simp: adaptive_clahe_def Let_def split: sum.splits)
  with cv show ?thesis by (rule apply_clahe_shape)
qed

lemma set_channel_shape:
  assumes "set_channel img i v = Inr out"
  shows "shape3 out = shape3 img"
proof -
  from assms have sh: "shape2 v = shape2 img"
    and o: "out = map2 (map2 (\<lambda>p x. p[i := x])) img v"
    by (auto simp: set_channel_def split: if_splits)
  from sh have ml: "map length v = map length img" by (simp add: shape2_def)
  then have len: "length v = length img" by (rule map_eq_imp_length_eq)
  show ?thesis
    unfolding shape3_def o
  proof (rule nth_equalityI)
    show "length (map (map length) (map2 (map2 (\<lambda>p x. p[i := x])) img v))
        = length (map (map length) img)"
      using len by simp
  next
    fix k
    assume "k < length (map (map length) (map2 (map2 (\<lambda>p x. p[i := x])) img v))"
    then have k: "k < length img" "k < length v" using len by simp_all
    have "map length v ! k = map length img ! k" by (simp only: ml)
    with k have lk: "length (v ! k) = length (img ! k)" by simp
    have "map length (map2 (\<lambda>p x. p[i := x]) (img ! k) (v ! k)) = map length (img ! k)"
      using lk by (intro nth_equalityI) simp_all
    with k show "map (map length) (map2 (map2 (\<lambda>p x. p[i := x])) img v) ! k
        = map (map length) img ! k"
      by simp
  qed
qed

lemma guided_loop_shape:
  "guided_loop gf r e todo img = Inr out \<Longrightarrow> shape3 out = shape3 img"
proof (induction todo arbitrary: img)
  case Nil
  then show ?case by simp
next
  case (Cons i todo)
  from Cons.prems obtain ch v img' where
    s: "set_channel img i v = Inr img'" and rest: "guided_loop gf r e todo img' = Inr out"
    by (auto split: sum.splits)
  from Cons.IH [OF rest] set_channel_shape [OF s] show ?case by simp
qed

lemma preserves_shape_Inr: "preserves_shape Inr"
  by (simp add: preserves_shape_def)

lemma demo_split_shape:
  assumes "cv_split demo_cv a = Inr chs"
  shows "list_all (\<lambda>c. shape2 c = shape2 a) chs
       \<and> list_all (list_all (\<lambda>p. length p = length chs)) a"
proof -
  define n where "n = (case concat a of [] \<Rightarrow> 0 | p # _ \<Rightarrow> length p)"
  from assms have al: "list_all (list_all (\<lambda>p. length p = n)) a"
    and chs: "chs = map (\<lambda>i. map (map (\<lambda>p. p ! i)) a) [0..<n]"
    by (auto simp: demo_cv_def Let_def n_def split: if_splits)
  have "list_all (\<lambda>c. shape2 c = shape2 a) chs"
    by (simp add: chs list_all_iff shape2_def)
  moreover have "length chs = n" by (simp add: chs)
  ultimately show ?thesis using al by simp
qed

lemma demo_merge_shape:
  assumes "cv_merge demo_cv chs = Inr b"
  shows "chs \<noteq> [] \<and> shape3 b = map (map (\<lambda>v. length chs)) (hd chs)"
proof -
  from assms obtain c0 cs where c: "chs = c0 # cs"
    and b: "b = map (\<lambda>y. map (\<lambda>x. map (\<lambda>c. c ! y ! x) chs) [0..<length (c0 ! y)]) [0..<length c0]"
    by (auto simp: demo_cv_def split: list.splits if_splits)
  have "shape3 b = map (map (\<lambda>v. length chs)) c0"
    unfolding shape3_def b
    by (intro nth_equalityI) (simp_all add: map_replicate_const)
  with c show ?thesis by simp
qed

lemma demo_cv_shape_preserving: "shape_preserving demo_cv"
proof -
  have a: "preserves_shape (cv_cvtColor_RGB2LAB demo_cv)"
    "preserves_shape (cv_cvtColor_LAB2RGB demo_cv)"
    "\<forall>alpha beta. preserves_shape (\<lambda>a. cv_convertScaleAbs demo_cv a alpha beta)"
    "\<forall>h. preserves_shape (\<lambda>a. cv_fastNlMeansDenoisingColored demo_cv a h)"
    by (simp_all add: demo_cv_def preserves_shape_def)
  have b: "\<forall>clip grid l l'. cv_clahe_apply demo_cv clip grid l = Inr l' \<longrightarrow> shape2 l' = shape2 l"
    by (auto simp: demo_cv_def shape2_def)
  have c: "\<forall>a chs. cv_split demo_cv a = Inr chs \<longrightarrow>
          list_all (\<lambda>c. shape2 c = shape2 a) chs
        \<and> list_all (list_all (\<lambda>p. length p = length chs)) a"
    using demo_split_shape by blast
  have d: "\<forall>chs b. cv_merge demo_cv chs = Inr b \<longrightarrow>
          chs \<noteq> [] \<and> shape3 b = map (map (\<lambda>v. length chs)) (hd chs)"
    using demo_merge_shape by blast
  from a b c d show ?thesis
    unfolding shape_preserving_def by (intro conjI)
qed

lemma enhance_image_shape:
  assumes cv: "shape_preserving cv" and em: "preserves_shape enhance_microscopy_image"
    and r: "enhance_image cv enhance_microscopy_image guided_filter (Array img) method
              sce dl ps = Inr out"
  shows "shape3 out = shape3 img"
proof -
  define params where "params = (case ps of None \<Rightarrow> no_params | Some d \<Rightarrow> d)"
  define step1 where "step1 =
     (if method = ''adaptive'' then enhance_microscopy_image img
      else if method = ''clahe'' then
        apply_clahe cv img (dict_get (clip_limit params) 2.0)
          (dict_get (tile_grid_size params) (8, 8))
      else if method = ''adaptive_clahe'' then
        adaptive_clahe cv img (dict_get (low_contrast_threshold params) 30)
          (dict_get (min_clip_limit params) 1.0)
          (dict_get (max_clip_limit params) 4.0)
      else if method = ''guided'' then
        guided_loop guided_filter (dict_get (radius params) 2)
          (dict_get (eps params) 0.2) [0, 1, 2] img
      else if method = ''basic'' then
        cv_convertScaleAbs cv img (dict_get (alpha params) 1.2)
          (dict_get (beta params) 10)
      else Inl ValueError)"
  have u: "enhance_image cv enhance_microscopy_image guided_filter (Array img) method
              sce dl ps =
     (case step1 of
        Inl e \<Rightarrow> Inl e
      | Inr enhanced \<Rightarrow>
          (case (if sce then enhance_small_cells cv enhanced
                        (dict_get (cell_size_threshold params) 0.005)
                 else Inr enhanced) of
             Inl e \<Rightarrow> Inl e
           | Inr enhanced' \<Rightarrow>
               if 0 < dl then cv_fastNlMeansDenoisingColored cv enhanced' dl
               else Inr enhanced'))"
    unfolding enhance_image_def step1_def params_def Let_def by simp
  from r u obtain e1 e2 where
    s1: "step1 = Inr e1"
    and s2: "(if sce then enhance_small_cells cv e1 (dict_get (cell_size_threshold params) 0.005)
              else Inr e1) = Inr e2"
    and s3: "(if 0 < dl then cv_fastNlMeansDenoisingColored cv e2 dl else Inr e2) = Inr out"
    by (auto split: sum.splits)
  have h1: "shape3 e1 = shape3 img"
  proof -
    consider (ad) "method = ''adaptive''" "enhance_microscopy_image img = Inr e1"
      | (cl) c g where "apply_clahe cv img c g = Inr e1"
      | (ac) t lo hi where "adaptive_clahe cv img t lo hi = Inr e1"
      | (gu) rr ee where "guided_loop guided_filter rr ee [0, 1, 2] img = Inr e1"
      | (ba) aa bb where "cv_convertScaleAbs cv img aa bb = Inr e1"
      using s1 unfolding step1_def by (auto split: if_splits)
    then show ?thesis
    proof cases
      case ad
      with em show ?thesis by (simp add: preserves_shape_def)
    next
      case cl
      with cv show ?thesis by (rule apply_clahe_shape)
    next
      case ac
      with cv show ?thesis by (rule adaptive_clahe_shape)
    next
      case gu
      then show ?thesis by (rule guided_loop_shape)
    next
      case ba
      with cv show ?thesis
        unfolding shape_preserving_def preserves_shape_def by blast
    qed
  qed
  have h2: "shape3 e2 = shape3 e1"
  proof (cases sce)
    case True
    with s2 show ?thesis by (simp add: enhance_small_cells_shape)
  next
    case False
    with s2 show ?thesis by simp
  qed
  have h3: "shape3 out = shape3 e2"
  proof (cases "0 < dl")
    case True
    with s3 have "cv_fastNlMeansDenoisingColored cv e2 dl = Inr out" by simp
    with cv show ?thesis
      unfolding shape_preserving_def preserves_shape_def by blast
  next
    case False
    with s3 show ?thesis by simp
  qed
  from h1 h2 h3 show ?thesis by simp
qed


lemma demo_clahe_run: "apply_clahe demo_cv diagonal_img 2 (8, 8) = Inr inverted_img"
  by code_simp

lemma demo_small_run: "enhance_small_cells demo_cv inverted_img (1 / 200) = Inr diagonal_img"
  by code_simp

lemma demo_denoise: "cv_fastNlMeansDenoisingColored demo_cv a h = Inr a"
  by (simp add: demo_cv_def)

lemma demo_enhance_run:
  "enhance_image demo_cv Inr (\<lambda>p g r e. Inr p) (Array diagonal_img) ''clahe'' True 5 None
     = Inr diagonal_img"
  by (simp add: enhance_image_def no_params_def dict_get_def demo_clahe_run demo_small_run
      demo_denoise)


end
